theory Spec2Isabelle
  imports Complex_Main "HOL-Library.Word" "HOL-Library.AList" "HOL-Library.Multiset"
begin

section \<open>Chunked frame transfer over UDP: sender and reassembling receiver\<close>

text \<open>
  The development embeds \<^verbatim>\<open>send_file\<close> (functions.py) and the methods
  \<^verbatim>\<open>datagram_received\<close> and \<^verbatim>\<open>cleanup_loop\<close> of \<^verbatim>\<open>UDPReceiverProtocol\<close>
  (functions\_client.py).

  Conventions of the embedding:
  \<^item> Python \<^verbatim>\<open>bytes\<close> are lists of 8-bit words; Python integers are \<open>int\<close> on the sending
    side (where they are parameters) and \<open>nat\<close> where they come out of \<^verbatim>\<open>int.from_bytes\<close>.
  \<^item> The reassembly dictionary is an association list in insertion order, which is the
    iteration order of a Python \<^verbatim>\<open>dict\<close>; a dictionary has no repeated key.
  \<^item> Exceptions are values of \<open>py_error\<close>. A function that mutates state before it raises
    returns the state reached together with the exception.
  \<^item> \<^verbatim>\<open>loop.time()\<close> and \<^verbatim>\<open>frame_timeout\<close> are doubles, read as the real numbers they
    denote; the current time is a parameter of every step.
  \<^item> Three expressions of the source compute in double precision.
    \<^verbatim>\<open>now - info["last_update"]\<close> is a rounded subtraction: it is a parameter \<open>float_sub\<close>
    of the receiver's model, and every statement holds for whatever function the
    subtraction of doubles is.
    \<^verbatim>\<open>1.0 / fps\<close> raises \<^verbatim>\<open>OverflowError\<close> when the integer \<^verbatim>\<open>fps\<close> does not convert to a
    double, that is from \<open>2 ^ 1024 - 2 ^ 970\<close> on in absolute value, and
    \<^verbatim>\<open>ZeroDivisionError\<close> at zero; the quotient is only slept on.
    \<^verbatim>\<open>math.ceil(frame_size / chunk_size)\<close> takes the ceiling of the correctly rounded
    double of the quotient, see \<open>ceil_div\<close>.
  \<^item> Of the logging only warnings and errors are kept, as events; \<^verbatim>\<open>logger.info\<close> lines
    and the pacing \<^verbatim>\<open>asyncio.sleep\<close> have no effect on any result and are left out.
\<close>

subsection \<open>Bytes, integers and slices\<close>

type_synonym byte = "8 word"
type_synonym bytes = "byte list"

datatype py_error = OverflowError | ZeroDivisionError | IndexError | TypeError | KeyError

text \<open>\<^verbatim>\<open>int.from_bytes(bs, "big", signed=False)\<close>\<close>

definition from_bytes :: "bytes \<Rightarrow> nat" where
  "from_bytes bs = foldl (\<lambda>acc b. acc * 256 + unat b) 0 bs"

text \<open>The \<open>n\<close> low-order base-256 digits of \<open>x\<close>, most significant first.\<close>

fun be_bytes :: "nat \<Rightarrow> nat \<Rightarrow> bytes" where
  "be_bytes 0 x = []"
| "be_bytes (Suc n) x = be_bytes n (x div 256) @ [word_of_nat (x mod 256)]"

text \<open>\<^verbatim>\<open>x.to_bytes(n, 'big', signed=False)\<close>: raises \<^verbatim>\<open>OverflowError\<close> when \<open>x\<close> is negative
  or does not fit in \<open>n\<close> bytes.\<close>

definition to_bytes :: "int \<Rightarrow> nat \<Rightarrow> py_error + bytes" where
  "to_bytes x n =
     (if x < 0 \<or> 256 ^ n \<le> x then Inl OverflowError else Inr (be_bytes n (nat x)))"

text \<open>\<^verbatim>\<open>xs[start:end]\<close> with Python's treatment of negative and out-of-range bounds.\<close>

definition py_bound :: "int \<Rightarrow> int \<Rightarrow> nat" where
  "py_bound n i = nat (if i < 0 then max (i + n) 0 else min i n)"

definition py_slice :: "'a list \<Rightarrow> int \<Rightarrow> int \<Rightarrow> 'a list" where
  "py_slice xs start end =
     (let n = int (length xs); s = py_bound n start; e = py_bound n end
      in take (e - s) (drop s xs))"

text \<open>\<^verbatim>\<open>math.ceil(a / b)\<close> for integers \<open>0 \<le> a < 2 ^ 53\<close> and \<open>b \<noteq> 0\<close>. Python's \<^verbatim>\<open>a / b\<close> is
  the double nearest to the exact quotient. A positive quotient of at most \<open>2 ^ -1075\<close>
  becomes \<^verbatim>\<open>0.0\<close>, whose ceiling is 0 and not 1. In every other case with \<open>a\<close> in that
  range the rounding does not cross an integer, so the ceiling of the double is the
  ceiling of the quotient. For \<open>a \<ge> 2 ^ 53\<close> the double can miss the quotient by more
  than that; every statement below that depends on \<open>ceil_div\<close> at a variable length carries
  the bound on the length.\<close>

definition ceil_div :: "int \<Rightarrow> int \<Rightarrow> int" where
  "ceil_div a b =
     (if 0 < a \<and> 0 < b \<and> a * 2 ^ 1075 \<le> b then 0 else - ((- a) div b))"

subsection \<open>The sender: \<^verbatim>\<open>send_file\<close>\<close>

datatype send_event = Sendto bytes | Log_error_reading

record send_result =
  sent :: "send_event list"
  outcome :: "py_error + int"

text \<open>The body of the \<^verbatim>\<open>for chunk_idx in range(total_chunks)\<close> loop up to the payload
  handed to \<^verbatim>\<open>transport.sendto\<close>.\<close>

definition chunk_payload :: "bytes \<Rightarrow> bytes \<Rightarrow> bytes \<Rightarrow> int \<Rightarrow> int \<Rightarrow> py_error + bytes" where
  "chunk_payload frame_counter_bytes total_chunks_bytes file_data chunk_size chunk_idx =
     (let frame_size = int (length file_data);
          start = chunk_idx * chunk_size;
          end = min (start + chunk_size) frame_size;
          chunk_data = py_slice file_data start end
      in case to_bytes chunk_idx 2 of
           Inl e \<Rightarrow> Inl e
         | Inr chunk_idx_bytes \<Rightarrow>
             Inr (frame_counter_bytes @ total_chunks_bytes @ chunk_idx_bytes @ chunk_data))"

text \<open>The loop itself: the datagrams sent so far, and the exception that stopped it, if any.\<close>

fun send_chunks :: "bytes \<Rightarrow> bytes \<Rightarrow> bytes \<Rightarrow> int \<Rightarrow> int list \<Rightarrow> send_event list \<times> py_error option" where
  "send_chunks fcb tcb file_data chunk_size [] = ([], None)"
| "send_chunks fcb tcb file_data chunk_size (chunk_idx # rest) =
     (case chunk_payload fcb tcb file_data chunk_size chunk_idx of
        Inl e \<Rightarrow> ([], Some e)
      | Inr payload \<Rightarrow>
          (case send_chunks fcb tcb file_data chunk_size rest of
             (evs, r) \<Rightarrow> (Sendto payload # evs, r)))"

text \<open>\<^verbatim>\<open>send_file(filepath, transport, target_addr, frame_counter, chunk_size, fps)\<close>.
  The file is given by what reading it yields: \<open>None\<close> when \<^verbatim>\<open>open\<close> or \<^verbatim>\<open>read\<close> raises,
  \<open>Some file_data\<close> otherwise. \<open>outcome\<close> is \<open>Inr\<close> of the returned frame counter or
  \<open>Inl\<close> of the exception that leaves the function. \<^verbatim>\<open>frame_counter\<close>, \<^verbatim>\<open>chunk_size\<close> and
  \<^verbatim>\<open>fps\<close> are Python integers (as the defaults 8000 and 30 are). \<^verbatim>\<open>delay = 1.0 / fps\<close>
  first converts \<^verbatim>\<open>fps\<close> to a double, which raises \<^verbatim>\<open>OverflowError\<close> from
  \<open>2 ^ 1024 - 2 ^ 970\<close> on in absolute value (the midpoint between the largest double and
  \<open>2 ^ 1024\<close>, which rounds up), and then divides, which raises \<^verbatim>\<open>ZeroDivisionError\<close> at
  zero.\<close>

definition send_file :: "bytes option \<Rightarrow> int \<Rightarrow> int \<Rightarrow> int \<Rightarrow> send_result" where
  "send_file file frame_counter chunk_size fps =
     (case file of
        None \<Rightarrow> \<lparr>sent = [Log_error_reading], outcome = Inr frame_counter\<rparr>
      | Some file_data \<Rightarrow>
          (let frame_size = int (length file_data) in
           (case to_bytes frame_counter 4 of
              Inl e \<Rightarrow> \<lparr>sent = [], outcome = Inl e\<rparr>
            | Inr frame_counter_bytes \<Rightarrow>
                (if chunk_size = 0 then \<lparr>sent = [], outcome = Inl ZeroDivisionError\<rparr>
                 else
                   (let n_chunks = ceil_div frame_size chunk_size in
                    (case to_bytes n_chunks 2 of
                       Inl e \<Rightarrow> \<lparr>sent = [], outcome = Inl e\<rparr>
                     | Inr total_chunks_bytes \<Rightarrow>
                         (if 2 ^ 1024 - 2 ^ 970 \<le> \<bar>fps\<bar>
                          then \<lparr>sent = [], outcome = Inl OverflowError\<rparr>
                          else if fps = 0
                          then \<lparr>sent = [], outcome = Inl ZeroDivisionError\<rparr>
                          else
                            (case send_chunks frame_counter_bytes total_chunks_bytes file_data
                                    chunk_size (map int [0..<nat n_chunks]) of
                               (evs, r) \<Rightarrow>
                                 (case r of
                                    Some e \<Rightarrow> \<lparr>sent = evs, outcome = Inl e\<rparr>
                                  | None \<Rightarrow>
                                      \<lparr>sent = evs,
                                       outcome =
                                         Inr ((frame_counter + 1) mod 2 ^ 32)\<rparr>)))))))))"

text \<open>The datagrams handed to the transport, in order.\<close>

fun datagrams :: "send_event list \<Rightarrow> bytes list" where
  "datagrams [] = []"
| "datagrams (Sendto p # evs) = p # datagrams evs"
| "datagrams (Log_error_reading # evs) = datagrams evs"

text \<open>The \<^verbatim>\<open>for filepath in ply_files\<close> loop of \<^verbatim>\<open>monitor_folder_and_send\<close>, over the
  paths found by one poll, each with what reading it yields. Nothing in the loop, and
  nothing around it in \<^verbatim>\<open>monitor_folder_and_send\<close>, catches an exception: one that leaves
  \<^verbatim>\<open>send_file\<close> leaves the loop and the coroutine.\<close>

fun send_new_files ::
  "(string \<times> bytes option) list \<Rightarrow> string set \<Rightarrow> int \<Rightarrow> int \<Rightarrow> int
   \<Rightarrow> send_event list \<times> (py_error + string set \<times> int)" where
  "send_new_files [] sent_files frame_counter chunk_size fps =
     ([], Inr (sent_files, frame_counter))"
| "send_new_files ((filepath, file) # ply_files) sent_files frame_counter chunk_size fps =
     (if filepath \<notin> sent_files then
        (let r = send_file file frame_counter chunk_size fps in
         case outcome r of
           Inl e \<Rightarrow> (sent r, Inl e)
         | Inr frame_counter' \<Rightarrow>
             (case send_new_files ply_files (insert filepath sent_files) frame_counter'
                     chunk_size fps of
                (evs, res) \<Rightarrow> (sent r @ evs, res)))
      else send_new_files ply_files sent_files frame_counter chunk_size fps)"

subsection \<open>The receiver: \<^verbatim>\<open>UDPReceiverProtocol\<close>\<close>

record frame_info =
  total_chunks :: nat
  chunks :: "bytes option list"
  received_count :: nat
  last_update :: real

type_synonym table = "(nat \<times> frame_info) list"

datatype recv_event =
    Warn_too_small nat
  | Warn_invalid_header nat nat
  | Warn_mismatch nat
  | Save_frame nat bytes
  | Warn_discard nat nat nat
  | Uncaught py_error

record recv_result =
  dict_after :: table
  events :: "recv_event list"
  raised :: "py_error option"

text \<open>\<^verbatim>\<open>del d[k]\<close>\<close>

definition py_del :: "table \<Rightarrow> nat \<Rightarrow> py_error + table" where
  "py_del d k = (case map_of d k of None \<Rightarrow> Inl KeyError | Some _ \<Rightarrow> Inr (AList.delete k d))"

text \<open>\<^verbatim>\<open>b"".join(chunks)\<close>: a \<^verbatim>\<open>None\<close> among the items is a \<^verbatim>\<open>TypeError\<close>.\<close>

fun join :: "bytes option list \<Rightarrow> py_error + bytes" where
  "join [] = Inr []"
| "join (None # cs) = Inl TypeError"
| "join (Some c # cs) = (case join cs of Inl e \<Rightarrow> Inl e | Inr r \<Rightarrow> Inr (c @ r))"

text \<open>The header fields as \<^verbatim>\<open>datagram_received\<close> parses them.\<close>

definition hdr_frame_counter :: "bytes \<Rightarrow> nat" where
  "hdr_frame_counter data = from_bytes (py_slice data 0 4)"

definition hdr_total_chunks :: "bytes \<Rightarrow> nat" where
  "hdr_total_chunks data = from_bytes (py_slice data 4 6)"

definition hdr_chunk_idx :: "bytes \<Rightarrow> nat" where
  "hdr_chunk_idx data = from_bytes (py_slice data 6 8)"

definition hdr_chunk_data :: "bytes \<Rightarrow> bytes" where
  "hdr_chunk_data data = py_slice data 8 (int (length data))"

text \<open>\<^verbatim>\<open>datagram_received(self, data, addr)\<close> on the dictionary \<^verbatim>\<open>self.reassembly_dict\<close>,
  with \<open>now\<close> the value of \<^verbatim>\<open>self.loop.time()\<close>. \<open>Save_frame\<close> is the task created for
  \<^verbatim>\<open>save_frame\<close>.\<close>

definition datagram_received :: "table \<Rightarrow> real \<Rightarrow> bytes \<Rightarrow> recv_result" where
  "datagram_received reassembly_dict now data =
     (if length data < 8 then
        \<lparr>dict_after = reassembly_dict, events = [Warn_too_small (length data)], raised = None\<rparr>
      else
        let frame_counter = hdr_frame_counter data;
            hdr_total = hdr_total_chunks data;
            chunk_idx = hdr_chunk_idx data;
            chunk_data = hdr_chunk_data data
        in
        if hdr_total \<le> 0 \<or> chunk_idx \<ge> hdr_total then
          \<lparr>dict_after = reassembly_dict, events = [Warn_invalid_header chunk_idx hdr_total],
           raised = None\<rparr>
        else
          let d1 = (if map_of reassembly_dict frame_counter = None
                    then AList.update frame_counter
                           \<lparr>total_chunks = hdr_total, chunks = replicate hdr_total None,
                            received_count = 0, last_update = now\<rparr> reassembly_dict
                    else reassembly_dict)
          in
          case map_of d1 frame_counter of
            None \<Rightarrow> \<lparr>dict_after = d1, events = [], raised = Some KeyError\<rparr>
          | Some frame_info \<Rightarrow>
              let mismatch = (total_chunks frame_info \<noteq> hdr_total);
                  fi1 = (if mismatch
                         then frame_info\<lparr>total_chunks := hdr_total, chunks := replicate hdr_total None,
                                         received_count := 0\<rparr>
                         else frame_info);
                  evs1 = (if mismatch then [Warn_mismatch frame_counter] else [])
              in
              if chunk_idx \<ge> length (chunks fi1) then
                \<lparr>dict_after = AList.update frame_counter fi1 d1, events = evs1,
                 raised = Some IndexError\<rparr>
              else
                let fi2 = (if chunks fi1 ! chunk_idx = None
                           then fi1\<lparr>chunks := (chunks fi1)[chunk_idx := Some chunk_data],
                                    received_count := received_count fi1 + 1,
                                    last_update := now\<rparr>
                           else fi1);
                    d2 = AList.update frame_counter fi2 d1
                in
                if received_count fi2 = total_chunks fi2 then
                  (case join (chunks fi2) of
                     Inl e \<Rightarrow> \<lparr>dict_after = d2, events = evs1, raised = Some e\<rparr>
                   | Inr complete_frame \<Rightarrow>
                       (case py_del d2 frame_counter of
                          Inl e \<Rightarrow>
                            \<lparr>dict_after = d2,
                             events = evs1 @ [Save_frame frame_counter complete_frame],
                             raised = Some e\<rparr>
                        | Inr d3 \<Rightarrow>
                            \<lparr>dict_after = d3,
                             events = evs1 @ [Save_frame frame_counter complete_frame],
                             raised = None\<rparr>))
                else \<lparr>dict_after = d2, events = evs1, raised = None\<rparr>)"

text \<open>One pass of the \<^verbatim>\<open>while True\<close> body of \<^verbatim>\<open>cleanup_loop\<close>. The first \<^verbatim>\<open>for\<close> loop
  collects \<^verbatim>\<open>to_remove\<close> and logs one warning per collected frame; the second deletes.
  The test is \<^verbatim>\<open>now - info["last_update"] > self.frame_timeout\<close>, with \<open>float_sub\<close> for the
  subtraction of doubles.\<close>

definition is_stale :: "(real \<Rightarrow> real \<Rightarrow> real) \<Rightarrow> real \<Rightarrow> real \<Rightarrow> frame_info \<Rightarrow> bool" where
  "is_stale float_sub now frame_timeout info \<longleftrightarrow>
     float_sub now (last_update info) > frame_timeout"

fun collect_stale ::
  "(real \<Rightarrow> real \<Rightarrow> real) \<Rightarrow> real \<Rightarrow> real \<Rightarrow> table \<Rightarrow> nat list \<times> recv_event list" where
  "collect_stale float_sub now frame_timeout [] = ([], [])"
| "collect_stale float_sub now frame_timeout ((fc, info) # items) =
     (case collect_stale float_sub now frame_timeout items of
        (to_remove, evs) \<Rightarrow>
          if is_stale float_sub now frame_timeout info
          then (fc # to_remove, Warn_discard fc (received_count info) (total_chunks info) # evs)
          else (to_remove, evs))"

fun remove_all :: "table \<Rightarrow> nat list \<Rightarrow> table \<times> py_error option" where
  "remove_all d [] = (d, None)"
| "remove_all d (fc # to_remove) =
     (case py_del d fc of
        Inl e \<Rightarrow> (d, Some e)
      | Inr d' \<Rightarrow> remove_all d' to_remove)"

definition cleanup_loop ::
  "(real \<Rightarrow> real \<Rightarrow> real) \<Rightarrow> real \<Rightarrow> table \<Rightarrow> real \<Rightarrow> recv_result" where
  "cleanup_loop float_sub frame_timeout reassembly_dict now =
     (case collect_stale float_sub now frame_timeout reassembly_dict of
        (to_remove, evs) \<Rightarrow>
          (case remove_all reassembly_dict to_remove of
             (d', r) \<Rightarrow> \<lparr>dict_after = d', events = evs, raised = r\<rparr>))"

subsection \<open>One atomic step after another\<close>

text \<open>The receiver runs on a single-threaded event loop: \<^verbatim>\<open>datagram_received\<close> is a
  synchronous callback and the body of \<^verbatim>\<open>cleanup_loop\<close> has no \<^verbatim>\<open>await\<close> between its
  two passes, so the dictionary sees a sequence of whole steps. An exception that leaves
  a step is recorded as \<open>Uncaught\<close>; the dictionary stays as the step left it.\<close>

datatype input = Datagram real bytes | Tick real

fun step :: "(real \<Rightarrow> real \<Rightarrow> real) \<Rightarrow> real \<Rightarrow> table \<Rightarrow> input \<Rightarrow> recv_result" where
  "step float_sub frame_timeout d (Datagram now data) = datagram_received d now data"
| "step float_sub frame_timeout d (Tick now) = cleanup_loop float_sub frame_timeout d now"

fun run ::
  "(real \<Rightarrow> real \<Rightarrow> real) \<Rightarrow> real \<Rightarrow> table \<Rightarrow> input list \<Rightarrow> table \<times> recv_event list" where
  "run float_sub frame_timeout d [] = (d, [])"
| "run float_sub frame_timeout d (x # xs) =
     (let r = step float_sub frame_timeout d x in
      case run float_sub frame_timeout (dict_after r) xs of
        (d', evs) \<Rightarrow>
          (d', events r @ (case raised r of None \<Rightarrow> [] | Some e \<Rightarrow> [Uncaught e]) @ evs))"

text \<open>Datagrams \<open>ps\<close> arriving one after the other, at the times \<open>ts\<close>.\<close>

definition deliver :: "real list \<Rightarrow> bytes list \<Rightarrow> input list" where
  "deliver ts ps = map (\<lambda>(now, p). Datagram now p) (zip ts ps)"

subsection \<open>Vocabulary for the statements\<close>

text \<open>A datagram that passes both guards of \<^verbatim>\<open>datagram_received\<close>.\<close>

definition valid_header :: "bytes \<Rightarrow> bool" where
  "valid_header data \<longleftrightarrow>
     8 \<le> length data \<and> 0 < hdr_total_chunks data \<and> hdr_chunk_idx data < hdr_total_chunks data"

text \<open>The entry of a frame of \<open>t\<close> chunks that holds the payload \<open>p\<close> in slot \<open>idx\<close> and
  nothing else.\<close>

definition fresh_with :: "nat \<Rightarrow> nat \<Rightarrow> bytes \<Rightarrow> real \<Rightarrow> frame_info" where
  "fresh_with t idx payload now =
     \<lparr>total_chunks = t, chunks = (replicate t None)[idx := Some payload],
      received_count = 1, last_update = now\<rparr>"

text \<open>The number of slots that are not \<^verbatim>\<open>None\<close>.\<close>

definition count_filled :: "bytes option list \<Rightarrow> nat" where
  "count_filled cs = length (filter (\<lambda>c. c \<noteq> None) cs)"

text \<open>What holds of every entry between two steps: the slot list has \<^verbatim>\<open>total_chunks\<close>
  slots, \<^verbatim>\<open>received_count\<close> counts the filled ones, and the frame is not complete (a
  complete frame is deleted in the step that completes it).\<close>

definition frame_ok :: "frame_info \<Rightarrow> bool" where
  "frame_ok fi \<longleftrightarrow>
     length (chunks fi) = total_chunks fi \<and> received_count fi = count_filled (chunks fi) \<and>
     received_count fi < total_chunks fi"

definition table_ok :: "table \<Rightarrow> bool" where
  "table_ok d \<longleftrightarrow> distinct (map fst d) \<and> list_all (\<lambda>(fc, fi). frame_ok fi) d"

text \<open>The chunk count, the \<open>i\<close>-th chunk and the \<open>i\<close>-th datagram of a file, on natural
  numbers; \<open>send_file_ok\<close> below shows that \<open>send_file\<close> sends exactly these.\<close>

definition n_chunks_of :: "nat \<Rightarrow> nat \<Rightarrow> nat" where
  "n_chunks_of l c = (if l mod c = 0 then l div c else l div c + 1)"

definition chunk_of :: "bytes \<Rightarrow> nat \<Rightarrow> nat \<Rightarrow> bytes" where
  "chunk_of file_data c i = take c (drop (i * c) file_data)"

definition packet :: "nat \<Rightarrow> nat \<Rightarrow> bytes \<Rightarrow> nat \<Rightarrow> nat \<Rightarrow> bytes" where
  "packet fc t file_data c i =
     be_bytes 4 fc @ be_bytes 2 t @ be_bytes 2 i @ chunk_of file_data c i"

text \<open>The entry of a frame of \<open>t\<close> chunks of which the indices in \<open>S\<close> have arrived.\<close>

definition slots :: "(nat \<Rightarrow> bytes) \<Rightarrow> nat set \<Rightarrow> nat \<Rightarrow> bytes option list" where
  "slots ch S t = map (\<lambda>i. if i \<in> S then Some (ch i) else None) [0..<t]"

definition partial_frame :: "(nat \<Rightarrow> bytes) \<Rightarrow> nat set \<Rightarrow> nat \<Rightarrow> real \<Rightarrow> frame_info" where
  "partial_frame ch S t now =
     \<lparr>total_chunks = t, chunks = slots ch S t, received_count = card S, last_update = now\<rparr>"

section \<open>Properties\<close>

subsection \<open>Bytes and slices\<close>

lemma from_bytes_snoc: "from_bytes (bs @ [b]) = from_bytes bs * 256 + unat b"
  by (simp add: from_bytes_def)

lemma length_be_bytes: "length (be_bytes n x) = n"
  by (induction n arbitrary: x) auto

lemma unat_byte_of_mod: "unat (word_of_nat (x mod 256) :: byte) = x mod 256"
  by (simp add: unat_of_nat)

lemma from_bytes_be_bytes: "from_bytes (be_bytes n x) = x mod 256 ^ n"
proof (induction n arbitrary: x)
  case 0
  show ?case by (simp add: from_bytes_def)
next
  case (Suc n)
  have "from_bytes (be_bytes (Suc n) x) = (x div 256) mod 256 ^ n * 256 + x mod 256"
    by (simp add: from_bytes_snoc Suc unat_byte_of_mod)
  also have "\<dots> = x mod 256 ^ Suc n"
    by (simp add: mod_mult2_eq)
  finally show ?case .
qed

lemma py_slice_nonneg:
  assumes "0 \<le> s" "0 \<le> e"
  shows "py_slice xs s e = take (nat e - nat s) (drop (nat s) xs)"
proof (cases "nat s < length xs")
  case True
  then show ?thesis using assms
    by (auto simp: py_slice_def py_bound_def Let_def min_def)
next
  case False
  then show ?thesis using assms
    by (auto simp: py_slice_def py_bound_def Let_def min_def)
qed

lemma to_bytes_ok: "x < 256 ^ n \<Longrightarrow> to_bytes (int x) n = Inr (be_bytes n x)"
  using of_nat_less_iff[of x "256 ^ n", where ?'a = int]
  by (simp add: to_bytes_def)

lemma chunk_slice:
  assumes "0 < c"
  shows "py_slice file_data (int i * int c) (min (int i * int c + int c) (int (length file_data)))
         = chunk_of file_data c i"
proof -
  have e: "min (int i * int c + int c) (int (length file_data))
           = int (min (i * c + c) (length file_data))"
    by (simp add: min_def flip: of_nat_mult of_nat_add)
  have "py_slice file_data (int i * int c) (min (int i * int c + int c) (int (length file_data)))
        = take (min (i * c + c) (length file_data) - i * c) (drop (i * c) file_data)"
    unfolding e by (subst py_slice_nonneg) (simp_all add: nat_mult_distrib)
  also have "\<dots> = take c (drop (i * c) file_data)"
    by (cases "i * c + c \<le> length file_data") (simp_all add: min_def)
  finally show ?thesis by (simp add: chunk_of_def)
qed

lemma chunk_payload_ok:
  assumes "0 < c" "i < 65536"
  shows "chunk_payload fcb tcb file_data (int c) (int i)
         = Inr (fcb @ tcb @ be_bytes 2 i @ chunk_of file_data c i)"
  using assms by (simp add: chunk_payload_def Let_def chunk_slice to_bytes_ok)

lemma send_chunks_ok:
  assumes "0 < c" "\<forall>i\<in>set is. i < 65536"
  shows "send_chunks fcb tcb file_data (int c) (map int is)
         = (map (\<lambda>i. Sendto (fcb @ tcb @ be_bytes 2 i @ chunk_of file_data c i)) is, None)"
  using assms by (induction "is") (simp_all add: chunk_payload_ok)

lemma datagrams_Sendto: "datagrams (map (\<lambda>i. Sendto (f i)) is) = map f is"
  by (induction "is") simp_all

lemma ceil_div_nat:
  assumes "0 < c" and "l = 0 \<or> c < l * 2 ^ 1075"
  shows "ceil_div (int l) (int c) = int (if l mod c = 0 then l div c else l div c + 1)"
proof -
  have u: "\<not> (0 < int l \<and> 0 < int c \<and> int l * 2 ^ 1075 \<le> int c)"
  proof (cases "l = 0")
    case True
    then show ?thesis by simp
  next
    case False
    with assms(2) have "c < l * 2 ^ 1075" by simp
    then have "int c < int (l * 2 ^ 1075)" by (simp only: of_nat_less_iff)
    then show ?thesis by simp
  qed
  have "int c \<noteq> 0" using assms(1) by simp
  then have "(- int l) div int c =
      (if int l mod int c = 0 then - (int l div int c) else - (int l div int c) - 1)"
    by (rule zdiv_zminus1_eq_if)
  moreover have "int l mod int c = int (l mod c)" "int l div int c = int (l div c)"
    by (simp_all add: zmod_int zdiv_int)
  ultimately show ?thesis using u by (simp add: ceil_div_def)
qed

lemma n_chunks_cover:
  assumes "0 < c"
  shows "l \<le> n_chunks_of l c * c"
proof -
  have a: "l div c * c + l mod c = l" by (rule div_mult_mod_eq)
  have b: "l mod c < c" using assms by simp
  have d: "(l div c + 1) * c = l div c * c + c" by simp
  show ?thesis
  proof (cases "l mod c = 0")
    case True
    with a show ?thesis unfolding n_chunks_of_def by simp
  next
    case False
    then have "n_chunks_of l c * c = l div c * c + c"
      unfolding n_chunks_of_def using d by simp
    with a b show ?thesis by linarith
  qed
qed

lemma n_chunks_pos: "0 < c \<Longrightarrow> 0 < l \<Longrightarrow> 0 < n_chunks_of l c"
  by (auto simp: n_chunks_of_def intro!: Nat.gr0I)

lemma send_file_ok:
  assumes "fc < 2 ^ 32" "0 < c" "fps \<noteq> 0" "n_chunks_of (length file_data) c < 65536"
    and "\<bar>fps\<bar> < 2 ^ 1024 - 2 ^ 970"
    and "length file_data = 0 \<or> c < length file_data * 2 ^ 1075"
  shows "send_file (Some file_data) (int fc) (int c) fps
         = \<lparr>sent = map (\<lambda>i. Sendto (packet fc (n_chunks_of (length file_data) c) file_data c i))
                     [0..<n_chunks_of (length file_data) c],
            outcome = Inr ((int fc + 1) mod 2 ^ 32)\<rparr>"
proof -
  let ?t = "n_chunks_of (length file_data) c"
  have 1: "to_bytes (int fc) 4 = Inr (be_bytes 4 fc)"
    using assms(1) by (intro to_bytes_ok) simp
  have 2: "ceil_div (int (length file_data)) (int c) = int ?t"
    using assms(2,6) by (simp add: ceil_div_nat n_chunks_of_def)
  have 3: "to_bytes (int ?t) 2 = Inr (be_bytes 2 ?t)"
    using assms(4) by (intro to_bytes_ok) simp
  have 4: "send_chunks (be_bytes 4 fc) (be_bytes 2 ?t) file_data (int c) (map int [0..<?t])
         = (map (\<lambda>i. Sendto (be_bytes 4 fc @ be_bytes 2 ?t @ be_bytes 2 i @ chunk_of file_data c i)) [0..<?t], None)"
    using assms(2,4) by (intro send_chunks_ok) auto
  show ?thesis
    unfolding send_file_def using assms(2,3,5)
    by (simp add: 1 2 3 4 Let_def packet_def)
qed

lemma concat_chunks: "concat (map (chunk_of xs c) [0..<t]) = take (t * c) xs"
proof (induction t)
  case 0
  show ?case by simp
next
  case (Suc t)
  have "take (t * c + c) xs = take (t * c) xs @ take c (drop (t * c) xs)"
    by (simp add: take_add)
  with Suc show ?case by (simp add: chunk_of_def add.commute)
qed

lemma concat_all_chunks:
  "0 < c \<Longrightarrow> concat (map (chunk_of xs c) [0..<n_chunks_of (length xs) c]) = xs"
  by (simp add: concat_chunks n_chunks_cover)

subsection \<open>The cases of \<^verbatim>\<open>datagram_received\<close>\<close>

lemma map_of_None_delete: "map_of d k = None \<Longrightarrow> AList.delete k d = d"
  by (simp add: map_of_eq_None_iff)

lemma py_del_update: "py_del (AList.update k v d) k = Inr (AList.delete k d)"
  by (simp add: py_del_def update_conv' delete_update_same)

lemma recv_fresh:
  assumes "valid_header data" "map_of d (hdr_frame_counter data) = None"
  shows "datagram_received d now data =
     (if hdr_total_chunks data = 1
      then \<lparr>dict_after = d,
            events = [Save_frame (hdr_frame_counter data) (hdr_chunk_data data)], raised = None\<rparr>
      else \<lparr>dict_after = AList.update (hdr_frame_counter data)
               (fresh_with (hdr_total_chunks data) (hdr_chunk_idx data) (hdr_chunk_data data) now) d,
            events = [], raised = None\<rparr>)"
proof (cases "hdr_total_chunks data = 1")
  case True
  with assms have i: "hdr_chunk_idx data = 0" by (simp add: valid_header_def)
  show ?thesis using assms True
    by (simp add: datagram_received_def valid_header_def Let_def update_conv' i
        py_del_update map_of_None_delete)
next
  case False
  show ?thesis using assms False
    by (simp add: datagram_received_def valid_header_def Let_def update_conv' fresh_with_def)
qed

lemma recv_mismatch:
  assumes "valid_header data" "map_of d (hdr_frame_counter data) = Some fi"
    "total_chunks fi \<noteq> hdr_total_chunks data"
  shows "datagram_received d now data =
     (if hdr_total_chunks data = 1
      then \<lparr>dict_after = AList.delete (hdr_frame_counter data) d,
            events = [Warn_mismatch (hdr_frame_counter data),
                      Save_frame (hdr_frame_counter data) (hdr_chunk_data data)], raised = None\<rparr>
      else \<lparr>dict_after = AList.update (hdr_frame_counter data)
               (fresh_with (hdr_total_chunks data) (hdr_chunk_idx data) (hdr_chunk_data data) now) d,
            events = [Warn_mismatch (hdr_frame_counter data)], raised = None\<rparr>)"
proof (cases "hdr_total_chunks data = 1")
  case True
  with assms have i: "hdr_chunk_idx data = 0" by (simp add: valid_header_def)
  show ?thesis using assms True
    by (simp add: datagram_received_def valid_header_def Let_def update_conv' i
        py_del_update)
next
  case False
  show ?thesis using assms False
    by (cases fi)
       (simp add: datagram_received_def valid_header_def Let_def update_conv' fresh_with_def)
qed

lemma recv_fill:
  assumes "valid_header data" "map_of d (hdr_frame_counter data) = Some fi"
    "total_chunks fi = hdr_total_chunks data"
    "hdr_chunk_idx data < length (chunks fi)" "chunks fi ! hdr_chunk_idx data = None"
  shows "datagram_received d now data =
     (let fi2 = fi\<lparr>chunks := (chunks fi)[hdr_chunk_idx data := Some (hdr_chunk_data data)],
                   received_count := received_count fi + 1, last_update := now\<rparr>
      in if received_count fi + 1 = total_chunks fi
         then (case join (chunks fi2) of
                 Inl e \<Rightarrow> \<lparr>dict_after = AList.update (hdr_frame_counter data) fi2 d,
                           events = [], raised = Some e\<rparr>
               | Inr complete_frame \<Rightarrow>
                   \<lparr>dict_after = AList.delete (hdr_frame_counter data) d,
                    events = [Save_frame (hdr_frame_counter data) complete_frame],
                    raised = None\<rparr>)
         else \<lparr>dict_after = AList.update (hdr_frame_counter data) fi2 d,
               events = [], raised = None\<rparr>)"
  using assms
  by (simp add: datagram_received_def valid_header_def Let_def py_del_update split: sum.splits)

lemma recv_dup:
  assumes "valid_header data" "map_of d (hdr_frame_counter data) = Some fi"
    "total_chunks fi = hdr_total_chunks data"
    "hdr_chunk_idx data < length (chunks fi)" "chunks fi ! hdr_chunk_idx data \<noteq> None"
    "received_count fi \<noteq> total_chunks fi"
  shows "datagram_received d now data = \<lparr>dict_after = d, events = [], raised = None\<rparr>"
  using assms
  by (auto simp add: datagram_received_def valid_header_def Let_def update_triv)

lemma recv_reject:
  assumes "\<not> valid_header data"
  shows "dict_after (datagram_received d now data) = d"
    and "raised (datagram_received d now data) = None"
    and "events (datagram_received d now data) =
          (if length data < 8 then [Warn_too_small (length data)]
           else [Warn_invalid_header (hdr_chunk_idx data) (hdr_total_chunks data)])"
  using assms
  by (auto simp add: datagram_received_def valid_header_def Let_def)

subsection \<open>A frame filling up\<close>

lemma slots_update:
  assumes "i < t"
  shows "(slots ch S t)[i := Some (ch i)] = slots ch (insert i S) t"
  using assms by (auto simp: slots_def list_eq_iff_nth_eq nth_list_update)

lemma slots_empty: "slots ch {} t = replicate t None"
  by (simp add: slots_def list_eq_iff_nth_eq)

lemma join_slots_full: "join (map (\<lambda>i. Some (ch i)) is) = Inr (concat (map ch is))"
  by (induction "is") simp_all

lemma slots_full: "slots ch {0..<t} t = map (\<lambda>i. Some (ch i)) [0..<t]"
  by (simp add: slots_def)

lemma fresh_with_partial:
  "i < t \<Longrightarrow> fresh_with t i (ch i) now = partial_frame ch {i} t now"
  using slots_update[of i t ch "{}"] by (simp add: fresh_with_def partial_frame_def slots_empty)

lemma full_iff:
  assumes "S \<subseteq> {0..<t}" "i < t" "i \<notin> S"
  shows "card S + 1 = t \<longleftrightarrow> insert i S = {0..<t}"
proof -
  have fin: "finite S" using assms(1) finite_subset by blast
  have sub: "insert i S \<subseteq> {0..<t}" using assms by auto
  have c: "card (insert i S) = card S + 1" using fin assms(3) by simp
  show ?thesis
  proof
    assume "card S + 1 = t"
    then have "card (insert i S) = card {0..<t}" using c by simp
    then show "insert i S = {0..<t}" using sub by (simp add: card_subset_eq)
  next
    assume "insert i S = {0..<t}"
    then have "card (insert i S) = t" by simp
    then show "card S + 1 = t" using c by simp
  qed
qed

lemma recv_next_chunk:
  assumes v: "valid_header data"
    and h: "hdr_frame_counter data = fc" "hdr_total_chunks data = t" "hdr_chunk_idx data = i"
       "hdr_chunk_data data = ch i"
    and S: "S \<subseteq> {0..<t}" "i \<notin> S"
    and st: "(S = {} \<and> map_of d fc = None) \<or> (\<exists>t0. map_of d fc = Some (partial_frame ch S t t0))"
  shows "datagram_received d now data =
     (if insert i S = {0..<t}
      then \<lparr>dict_after = AList.delete fc d,
            events = [Save_frame fc (concat (map ch [0..<t]))], raised = None\<rparr>
      else \<lparr>dict_after = AList.update fc (partial_frame ch (insert i S) t now) d,
            events = [], raised = None\<rparr>)"
proof -
  have it: "i < t" using v h by (simp add: valid_header_def)
  have fin: "finite S" using S(1) finite_subset by blast
  from st show ?thesis
  proof
    assume a: "S = {} \<and> map_of d fc = None"
    have one: "t = 1 \<longleftrightarrow> insert i S = {0..<t}"
      using full_iff[OF S(1) it S(2)] a by auto
    show ?thesis
    proof (cases "t = 1")
      case True
      then have "i = 0" using it by simp
      then have "concat (map ch [0..<t]) = ch i" using True by simp
      moreover have "insert i S = {0..<t}" using one True by simp
      moreover have "datagram_received d now data =
          \<lparr>dict_after = d, events = [Save_frame fc (ch i)], raised = None\<rparr>"
        using recv_fresh[of data d now] v h a True by simp
      ultimately show ?thesis using a by (simp add: map_of_None_delete)
    next
      case False
      then have "insert i S \<noteq> {0..<t}" using one by simp
      moreover have "datagram_received d now data =
          \<lparr>dict_after = AList.update fc (fresh_with t i (ch i) now) d, events = [],
           raised = None\<rparr>"
        using recv_fresh[of data d now] v h a False by simp
      ultimately show ?thesis using a it by (simp add: fresh_with_partial)
    qed
  next
    assume "\<exists>t0. map_of d fc = Some (partial_frame ch S t t0)"
    then obtain t0 where m: "map_of d fc = Some (partial_frame ch S t t0)" ..
    let ?fi = "partial_frame ch S t t0"
    have 1: "total_chunks ?fi = hdr_total_chunks data" by (simp add: partial_frame_def h)
    have 2: "hdr_chunk_idx data < length (chunks ?fi)"
      using it by (simp add: partial_frame_def slots_def h)
    have 3: "chunks ?fi ! hdr_chunk_idx data = None"
      using it S(2) by (simp add: partial_frame_def slots_def h)
    have upd: "?fi\<lparr>chunks := (chunks ?fi)[i := Some (ch i)],
                   received_count := received_count ?fi + 1, last_update := now\<rparr>
               = partial_frame ch (insert i S) t now"
      using fin S(2) it by (simp add: partial_frame_def slots_update)
    have full: "received_count ?fi + 1 = total_chunks ?fi \<longleftrightarrow> insert i S = {0..<t}"
      using full_iff[OF S(1) it S(2)] by (simp add: partial_frame_def)
    have j: "join (chunks (partial_frame ch {0..<t} t now)) = Inr (concat (map ch [0..<t]))"
      by (simp add: partial_frame_def slots_full join_slots_full)
    show ?thesis
      using recv_fill[OF v _ 1 2 3, of d now] m h
      unfolding Let_def h upd full
      by (auto simp: j)
  qed
qed

lemma run_datagrams:
  assumes pk: "\<And>i. i < t \<Longrightarrow> valid_header (pkt i) \<and> hdr_frame_counter (pkt i) = fc \<and>
                 hdr_total_chunks (pkt i) = t \<and> hdr_chunk_idx (pkt i) = i \<and>
                 hdr_chunk_data (pkt i) = ch i"
  shows "\<lbrakk>is \<noteq> []; distinct is; set is \<inter> S = {}; set is \<union> S = {0..<t}; length ts = length is;
          (S = {} \<and> map_of d fc = None) \<or> (\<exists>t0. map_of d fc = Some (partial_frame ch S t t0))\<rbrakk>
         \<Longrightarrow> run float_sub frame_timeout d (map (\<lambda>(now, i). Datagram now (pkt i)) (zip ts is))
             = (AList.delete fc d, [Save_frame fc (concat (map ch [0..<t]))])"
proof (induction "is" arbitrary: S d ts)
  case Nil
  then show ?case by simp
next
  case (Cons i rest)
  from Cons.prems(5) obtain now ts' where ts: "ts = now # ts'" "length ts' = length rest"
    by (cases ts) auto
  have it: "i < t" using Cons.prems(4) by auto
  have iS: "i \<notin> S" using Cons.prems(3) by auto
  have SS: "S \<subseteq> {0..<t}" using Cons.prems(4) by auto
  note st = recv_next_chunk[where data = "pkt i" and fc = fc and t = t and i = i and ch = ch
      and S = S and d = d and now = now]
  have r: "datagram_received d now (pkt i) =
     (if insert i S = {0..<t}
      then \<lparr>dict_after = AList.delete fc d,
            events = [Save_frame fc (concat (map ch [0..<t]))], raised = None\<rparr>
      else \<lparr>dict_after = AList.update fc (partial_frame ch (insert i S) t now) d,
            events = [], raised = None\<rparr>)"
    using pk[OF it] SS iS Cons.prems(6) by (intro st) auto
  show ?case
  proof (cases "rest = []")
    case True
    then have "insert i S = {0..<t}" using Cons.prems(4) by auto
    then show ?thesis using r True ts by simp
  next
    case False
    then obtain j where j: "j \<in> set rest" by (cases rest) auto
    then have "j \<noteq> i" "j \<notin> S" "j < t" using Cons.prems(2,3,4) by auto
    then have "j \<in> {0..<t}" "j \<notin> insert i S" by simp_all
    then have nf: "insert i S \<noteq> {0..<t}" by metis
    let ?d' = "AList.update fc (partial_frame ch (insert i S) t now) d"
    have "run float_sub frame_timeout ?d' (map (\<lambda>(now, i). Datagram now (pkt i)) (zip ts' rest))
          = (AList.delete fc ?d', [Save_frame fc (concat (map ch [0..<t]))])"
    proof (rule Cons.IH[OF False])
      show "distinct rest" using Cons.prems(2) by simp
      show "set rest \<inter> insert i S = {}" using Cons.prems(2,3) by auto
      show "set rest \<union> insert i S = {0..<t}" using Cons.prems(4) by auto
      show "length ts' = length rest" by (rule ts(2))
      show "insert i S = {} \<and> map_of ?d' fc = None \<or>
            (\<exists>t0. map_of ?d' fc = Some (partial_frame ch (insert i S) t t0))"
        by (auto simp add: update_conv')
    qed
    then show ?thesis using r nf ts by (simp add: delete_update_same)
  qed
qed

lemma mset_map_remove1:
  "x \<in> set xs \<Longrightarrow> mset (map f (remove1 x xs)) = mset (map f xs) - {#f x#}"
  by (induction xs) auto

lemma perm_of_map:
  "mset ps = mset (map f xs) \<Longrightarrow> \<exists>ys. ps = map f ys \<and> mset ys = mset xs"
proof (induction ps arbitrary: xs)
  case Nil
  then show ?case by simp
next
  case (Cons p ps)
  have "p \<in># mset (map f xs)" using Cons.prems by (metis list.set_intros(1) set_mset_mset)
  then obtain x where x: "x \<in> set xs" "f x = p" by auto
  have "mset ps = mset (map f xs) - {#p#}" using Cons.prems by (metis add_mset_remove_trivial mset.simps(2))
  then have "mset ps = mset (map f (remove1 x xs))" using x mset_map_remove1[of x xs f] by simp
  from Cons.IH[OF this] obtain ys where ys: "ps = map f ys" "mset ys = mset (remove1 x xs)"
    by blast
  have "p # ps = map f (x # ys)" using x ys by simp
  moreover have "mset (x # ys) = mset xs" using x ys by simp
  ultimately show ?case by (intro exI[of _ "x # ys"] conjI)
qed

lemma slice_header:
  assumes "length a = 4" "length b = 2" "length c = 2"
  shows "py_slice (a @ b @ c @ p) 0 4 = a" "py_slice (a @ b @ c @ p) 4 6 = b"
    "py_slice (a @ b @ c @ p) 6 8 = c"
    "py_slice (a @ b @ c @ p) 8 (int (length (a @ b @ c @ p))) = p"
  using assms by (simp_all add: py_slice_nonneg)

lemma packet_header:
  assumes "fc < 2 ^ 32" "t < 65536" "i < t"
  shows "valid_header (packet fc t file_data c i)"
    "hdr_frame_counter (packet fc t file_data c i) = fc"
    "hdr_total_chunks (packet fc t file_data c i) = t"
    "hdr_chunk_idx (packet fc t file_data c i) = i"
    "hdr_chunk_data (packet fc t file_data c i) = chunk_of file_data c i"
proof -
  have l: "length (be_bytes 4 fc) = 4" "length (be_bytes 2 t) = 2" "length (be_bytes 2 i) = 2"
    by (simp_all add: length_be_bytes)
  note sl = slice_header[OF l, of "chunk_of file_data c i"]
  show 1: "hdr_frame_counter (packet fc t file_data c i) = fc"
    unfolding hdr_frame_counter_def packet_def sl using assms(1)
    by (simp add: from_bytes_be_bytes)
  show 2: "hdr_total_chunks (packet fc t file_data c i) = t"
    unfolding hdr_total_chunks_def packet_def sl using assms(2)
    by (simp add: from_bytes_be_bytes)
  show 3: "hdr_chunk_idx (packet fc t file_data c i) = i"
    unfolding hdr_chunk_idx_def packet_def sl using assms(2,3)
    by (simp add: from_bytes_be_bytes)
  show "hdr_chunk_data (packet fc t file_data c i) = chunk_of file_data c i"
    unfolding hdr_chunk_data_def packet_def sl ..
  show "valid_header (packet fc t file_data c i)"
    unfolding valid_header_def 2 3 using assms(3)
    by (simp add: packet_def length_be_bytes)
qed

subsection \<open>What every step preserves\<close>

lemma count_filled_le: "count_filled cs \<le> length cs"
  by (simp add: count_filled_def)

lemma count_filled_replicate: "count_filled (replicate n None) = 0"
  by (simp add: count_filled_def)

lemma count_filled_fill:
  "i < length cs \<Longrightarrow> cs ! i = None \<Longrightarrow> count_filled (cs[i := Some p]) = count_filled cs + 1"
proof (induction cs arbitrary: i)
  case Nil
  then show ?case by simp
next
  case (Cons c cs)
  then show ?case by (cases i) (simp_all add: count_filled_def)
qed

lemma join_full:
  "count_filled cs = length cs \<Longrightarrow> \<exists>r. join cs = Inr r"
proof (induction cs)
  case Nil
  show ?case by simp
next
  case (Cons c cs)
  show ?case
  proof (cases c)
    case None
    then have "count_filled (c # cs) = count_filled cs" by (simp add: count_filled_def)
    with Cons.prems count_filled_le[of cs] show ?thesis by simp
  next
    case (Some b)
    then have "count_filled cs = length cs" using Cons.prems by (simp add: count_filled_def)
    from Cons.IH[OF this] show ?thesis using Some by auto
  qed
qed

lemma frame_ok_fresh:
  "i < t \<Longrightarrow> t \<noteq> 1 \<Longrightarrow> frame_ok (fresh_with t i p now)"
  by (simp add: frame_ok_def fresh_with_def count_filled_fill count_filled_replicate)

lemma set_update_subset: "set (AList.update k v d) \<subseteq> insert (k, v) (set d)"
  by (induction d) auto

lemma set_delete_subset: "set (AList.delete k d) \<subseteq> set d"
  by (induction d) auto

lemma table_ok_update: "table_ok d \<Longrightarrow> frame_ok v \<Longrightarrow> table_ok (AList.update k v d)"
  using set_update_subset[of k v d]
  by (auto simp: table_ok_def list_all_iff distinct_update)

lemma table_ok_delete: "table_ok d \<Longrightarrow> table_ok (AList.delete k d)"
  using set_delete_subset[of k d]
  by (auto simp: table_ok_def list_all_iff distinct_delete)

lemma table_ok_lookup: "table_ok d \<Longrightarrow> map_of d k = Some fi \<Longrightarrow> frame_ok fi"
  by (auto simp: table_ok_def list_all_iff dest: map_of_SomeD)

lemma datagram_received_ok:
  assumes "table_ok d"
  shows "table_ok (dict_after (datagram_received d now data)) \<and>
         raised (datagram_received d now data) = None"
proof (cases "valid_header data")
  case False
  then show ?thesis using assms by (simp add: recv_reject)
next
  case v: True
  let ?fc = "hdr_frame_counter data" and ?t = "hdr_total_chunks data"
    and ?i = "hdr_chunk_idx data" and ?p = "hdr_chunk_data data"
  have it: "?i < ?t" using v by (simp add: valid_header_def)
  have fresh: "?t \<noteq> 1 \<Longrightarrow> table_ok (AList.update ?fc (fresh_with ?t ?i ?p now) d)"
    using assms it by (simp add: table_ok_update frame_ok_fresh)
  show ?thesis
  proof (cases "map_of d ?fc")
    case None
    then show ?thesis using recv_fresh[OF v None, of now] assms fresh by simp
  next
    case (Some fi)
    have ok: "frame_ok fi" using assms Some by (rule table_ok_lookup)
    show ?thesis
    proof (cases "total_chunks fi = ?t")
      case False
      then show ?thesis
        using recv_mismatch[OF v Some False, of now] assms fresh
        by (simp add: table_ok_delete)
    next
      case t: True
      have len: "?i < length (chunks fi)" using ok it t by (simp add: frame_ok_def)
      show ?thesis
      proof (cases "chunks fi ! ?i = None")
        case False
        have "received_count fi \<noteq> total_chunks fi" using ok by (simp add: frame_ok_def)
        from recv_dup[OF v Some t len False this, of now] show ?thesis using assms by simp
      next
        case e: True
        let ?fi2 = "fi\<lparr>chunks := (chunks fi)[?i := Some ?p],
                       received_count := received_count fi + 1, last_update := now\<rparr>"
        have cnt: "count_filled (chunks ?fi2) = received_count fi + 1"
          using ok len e by (simp add: count_filled_fill frame_ok_def)
        show ?thesis
        proof (cases "received_count fi + 1 = total_chunks fi")
          case True
          then have "count_filled (chunks ?fi2) = length (chunks ?fi2)"
            using cnt ok by (simp add: frame_ok_def)
          then obtain r where "join (chunks ?fi2) = Inr r" using join_full by blast
          then show ?thesis
            using recv_fill[OF v Some t len e, of now] True assms
            by (simp add: Let_def table_ok_delete)
        next
          case False
          then have "frame_ok ?fi2" using ok cnt by (simp add: frame_ok_def)
          then show ?thesis
            using recv_fill[OF v Some t len e, of now] False assms
            by (simp add: Let_def table_ok_update)
        qed
      qed
    qed
  qed
qed

lemma collect_stale_eq:
  "collect_stale float_sub now frame_timeout d
   = (map fst (filter (\<lambda>(fc, info). is_stale float_sub now frame_timeout info) d),
      map (\<lambda>(fc, info). Warn_discard fc (received_count info) (total_chunks info))
        (filter (\<lambda>(fc, info). is_stale float_sub now frame_timeout info) d))"
  by (induction d) auto

lemma remove_all_ok: "table_ok d \<Longrightarrow> table_ok (fst (remove_all d ks))"
  by (induction ks arbitrary: d) (auto simp: py_del_def table_ok_delete split: option.splits)

lemma remove_all_distinct:
  "distinct ks \<Longrightarrow> set ks \<subseteq> fst ` set d \<Longrightarrow>
   remove_all d ks = (filter (\<lambda>(k, v). k \<notin> set ks) d, None)"
proof (induction ks arbitrary: d)
  case Nil
  then show ?case by simp
next
  case (Cons k ks)
  have "k \<in> fst ` set d" using Cons.prems(2) by simp
  then obtain v where "map_of d k = Some v"
    by (metis domD dom_map_of_conv_image_fst)
  then have 1: "py_del d k = Inr (AList.delete k d)" by (simp add: py_del_def)
  have "set (map fst (AList.delete k d)) = set (map fst d) - {k}"
    unfolding delete_keys by simp
  then have 2: "set ks \<subseteq> fst ` set (AList.delete k d)"
    using Cons.prems by auto
  have "remove_all (AList.delete k d) ks
        = (filter (\<lambda>(k, v). k \<notin> set ks) (AList.delete k d), None)"
    using Cons.prems(1) 2 by (intro Cons.IH) simp_all
  moreover have "filter (\<lambda>(k, v). k \<notin> set ks) (AList.delete k d)
        = filter (\<lambda>(k', v). k' \<notin> set (k # ks)) d"
    by (auto simp: AList.delete_eq intro!: filter_cong)
  ultimately show ?case using 1 by simp
qed

lemma cleanup_loop_filter:
  assumes "distinct (map fst d)"
  shows "cleanup_loop float_sub frame_timeout d now =
     \<lparr>dict_after = filter (\<lambda>(fc, info). \<not> is_stale float_sub now frame_timeout info) d,
      events = map (\<lambda>(fc, info). Warn_discard fc (received_count info) (total_chunks info))
                 (filter (\<lambda>(fc, info). is_stale float_sub now frame_timeout info) d),
      raised = None\<rparr>"
proof -
  let ?P = "\<lambda>(fc, info). is_stale float_sub now frame_timeout info"
  let ?ks = "map fst (filter ?P d)"
  have d: "distinct ?ks" using assms by (rule distinct_map_filter)
  have s: "set ?ks \<subseteq> fst ` set d" by auto
  have "filter (\<lambda>(k, v). k \<notin> set ?ks) d = filter (\<lambda>x. \<not> ?P x) d"
  proof (rule filter_cong[OF refl])
    fix x assume x: "x \<in> set d"
    obtain k v where kv: "x = (k, v)" by (cases x)
    have "k \<in> set ?ks \<longleftrightarrow> is_stale float_sub now frame_timeout v"
    proof
      assume "k \<in> set ?ks"
      then obtain v' where "(k, v') \<in> set d" "is_stale float_sub now frame_timeout v'" by auto
      moreover have "v' = v" using assms x kv \<open>(k, v') \<in> set d\<close>
        by (meson eq_key_imp_eq_value)
      ultimately show "is_stale float_sub now frame_timeout v" by simp
    next
      assume "is_stale float_sub now frame_timeout v"
      then show "k \<in> set ?ks" using x kv by force
    qed
    then show "(case x of (k, v) \<Rightarrow> k \<notin> set ?ks) = (\<not> ?P x)" using kv by simp
  qed
  then have "remove_all d ?ks = (filter (\<lambda>x. \<not> ?P x) d, None)"
    using remove_all_distinct[OF d s] by simp
  then show ?thesis
    by (simp add: cleanup_loop_def collect_stale_eq case_prod_unfold)
qed

lemma cleanup_loop_ok:
  "table_ok d \<Longrightarrow> table_ok (dict_after (cleanup_loop float_sub frame_timeout d now)) \<and>
     raised (cleanup_loop float_sub frame_timeout d now) = None"
  by (auto simp: cleanup_loop_filter table_ok_def list_all_iff distinct_map_filter)

lemma step_ok:
  "table_ok d \<Longrightarrow> table_ok (dict_after (step float_sub frame_timeout d x)) \<and>
     raised (step float_sub frame_timeout d x) = None"
  by (cases x) (simp_all add: datagram_received_ok cleanup_loop_ok)

lemma run_ok: "table_ok d \<Longrightarrow> table_ok (fst (run float_sub frame_timeout d xs))"
proof (induction xs arbitrary: d)
  case Nil
  then show ?case by simp
next
  case (Cons x xs)
  from step_ok[OF Cons.prems, of float_sub frame_timeout x]
  have "table_ok (dict_after (step float_sub frame_timeout d x))" by simp
  from Cons.IH[OF this] show ?case
    by (cases "run float_sub frame_timeout (dict_after (step float_sub frame_timeout d x)) xs") (simp add: Let_def)
qed

subsection \<open>Further facts about the sender and the empty dictionary\<close>

lemma be_bytes_4:
  "be_bytes 4 x = [word_of_nat (x div 256 div 256 div 256 mod 256),
                   word_of_nat (x div 256 div 256 mod 256),
                   word_of_nat (x div 256 mod 256), word_of_nat (x mod 256)]"
proof -
  have e: "(4::nat) = Suc (Suc (Suc (Suc 0)))" by simp
  show ?thesis unfolding e by simp
qed

lemma be_bytes_2: "be_bytes 2 x = [word_of_nat (x div 256 mod 256), word_of_nat (x mod 256)]"
proof -
  have e: "(2::nat) = Suc (Suc 0)" by simp
  show ?thesis unfolding e by simp
qed

lemma to_bytes_2_overflow: "65535 < n \<Longrightarrow> to_bytes n 2 = Inl OverflowError"
  by (simp add: to_bytes_def)

lemma ceil_div_zero: "ceil_div a 0 = 0"
  by (simp add: ceil_div_def)

lemma send_chunks_all:
  "send_chunks fcb tcb file_data chunk_size is = (evs, None) \<Longrightarrow>
   length (datagrams evs) = length is"
proof (induction "is" arbitrary: evs)
  case Nil
  then show ?case by simp
next
  case (Cons i rest)
  then show ?case by (auto split: sum.splits prod.splits)
qed

lemma next_frame_counter_differs: "(fc::int) \<noteq> (fc + 1) mod 2 ^ 32"
proof
  assume e: "fc = (fc + 1) mod 2 ^ 32"
  have "0 \<le> (fc + 1) mod 2 ^ 32" "(fc + 1) mod 2 ^ 32 < 2 ^ 32" by simp_all
  with e have r: "0 \<le> fc" "fc < 2 ^ 32" by simp_all
  show False
  proof (cases "fc + 1 < 2 ^ 32")
    case True
    with r have "(fc + 1) mod 2 ^ 32 = fc + 1" by simp
    with e show False by simp
  next
    case False
    with r have "fc + 1 = 2 ^ 32" by simp
    then have "(fc + 1) mod 2 ^ 32 = 0" by simp
    with e \<open>fc + 1 = 2 ^ 32\<close> show False by simp
  qed
qed

lemma table_ok_Nil: "table_ok []"
  by (simp add: table_ok_def)

subsection \<open>Where a saved frame comes from\<close>

lemma datagram_received_save_source:
  assumes "Save_frame k b \<in> set (events (datagram_received d now data))"
  shows "valid_header data \<and> hdr_frame_counter data = k"
proof (cases "valid_header data")
  case False
  with assms show ?thesis by (simp add: recv_reject split: if_splits)
next
  case True
  show ?thesis
  proof (rule conjI[OF True], rule ccontr)
    assume n: "hdr_frame_counter data \<noteq> k"
    have "8 \<le> length data" "0 < hdr_total_chunks data"
      "hdr_chunk_idx data < hdr_total_chunks data"
      using True by (simp_all add: valid_header_def)
    with assms n show False
      by (auto simp: datagram_received_def Let_def
          split: if_splits option.splits sum.splits)
  qed
qed

lemma cleanup_loop_no_save:
  "Save_frame k b \<notin> set (events (cleanup_loop float_sub frame_timeout d now))"
  by (auto simp: cleanup_loop_def collect_stale_eq split: prod.splits)

lemma run_save_source:
  "Save_frame k b \<in> set (snd (run float_sub frame_timeout d inputs)) \<Longrightarrow>
   \<exists>now data. Datagram now data \<in> set inputs \<and> valid_header data \<and>
     hdr_frame_counter data = k"
proof (induction inputs arbitrary: d)
  case Nil
  then show ?case by simp
next
  case (Cons x xs)
  let ?r = "step float_sub frame_timeout d x"
  obtain d' evs where r: "run float_sub frame_timeout (dict_after ?r) xs = (d', evs)"
    by (cases "run float_sub frame_timeout (dict_after ?r) xs")
  from Cons.prems r
  have "Save_frame k b \<in> set (events ?r) \<or> Save_frame k b \<in> set evs"
    by (auto simp: Let_def split: option.splits)
  then show ?case
  proof
    assume e: "Save_frame k b \<in> set (events ?r)"
    show ?thesis
    proof (cases x)
      case (Datagram now data)
      with e have "valid_header data \<and> hdr_frame_counter data = k"
        using datagram_received_save_source by simp
      with Datagram show ?thesis by auto
    next
      case (Tick now)
      with e show ?thesis using cleanup_loop_no_save by simp
    qed
  next
    assume "Save_frame k b \<in> set evs"
    with r have "Save_frame k b \<in> set (snd (run float_sub frame_timeout (dict_after ?r) xs))"
      by simp
    from Cons.IH[OF this] show ?thesis by auto
  qed
qed

section \<open>The claims\<close>

lemma deliveries_map:
  "deliver ts (map pkt is) = map (\<lambda>(now, i). Datagram now (pkt i)) (zip ts is)"
  by (simp add: deliver_def zip_map2 case_prod_unfold)

lemma deliver_Nil: "deliver ts [] = []"
  by (simp add: deliver_def)

subsection \<open>C1: round trip\<close>

text \<open>
  C1 states that for every byte sequence and every chunk size, delivering all the datagrams
  that fragmenting produced, in any order and each once, makes the reassembler emit
  exactly one frame, equal to the original bytes.

  As stated the claim fails for the empty byte sequence: \<open>send_file\<close> sends no datagram
  for it, so nothing arrives and nothing is emitted (the receiver would reject a header
  with \<^verbatim>\<open>total_chunks\<close> zero in any case).

  C1 amended: for every non-empty byte sequence shorter than \<open>2 ^ 53\<close> bytes, every chunk
  size from 1 to below \<open>2 ^ 1075\<close> at which it needs at most 65535 chunks, a frame counter
  in \<open>0 .. 2 ^ 32 - 1\<close> and an \<^verbatim>\<open>fps\<close> that is not zero and below \<open>2 ^ 1024 - 2 ^ 970\<close> in
  absolute value: if the reassembly dictionary has no entry for that frame counter, then
  delivering any permutation \<open>ps\<close> of the datagrams sent by \<open>send_file\<close>, at any times
  \<open>ts\<close>, emits exactly one event, \<open>Save_frame\<close> with the original bytes, raises nothing,
  and leaves the dictionary as it was.
\<close>

theorem roundtrip:
  assumes "file_data \<noteq> []" and "length file_data < 2 ^ 53"
    and "0 < chunk_size" and "chunk_size < 2 ^ 1075"
    and "ceil_div (int (length file_data)) chunk_size \<le> 65535"
    and "0 \<le> frame_counter" and "frame_counter < 2 ^ 32"
    and "fps \<noteq> 0" and "\<bar>fps\<bar> < 2 ^ 1024 - 2 ^ 970"
    and "mset ps = mset (datagrams (sent (send_file (Some file_data) frame_counter chunk_size fps)))"
    and "length ts = length ps"
    and "map_of d (nat frame_counter) = None"
  shows "run float_sub frame_timeout d (deliver ts ps)
         = (d, [Save_frame (nat frame_counter) file_data])"
proof -
  obtain fc c where fc: "frame_counter = int fc" and c: "chunk_size = int c"
    using assms(3,6) by (metis nat_0_le less_imp_le)
  have c0: "0 < c" using assms(3) c by simp
  have fcb: "fc < 2 ^ 32" using assms(7) fc by (metis of_nat_less_iff of_nat_numeral of_nat_power)
  have "int c < int (2 ^ 1075)" using assms(4) c by simp
  then have cb: "c < 2 ^ 1075" by (simp only: of_nat_less_iff)
  have "1 \<le> length file_data" using assms(1) by (cases file_data) simp_all
  then have "(2::nat) ^ 1075 \<le> length file_data * 2 ^ 1075" by simp
  with cb have nu: "length file_data = 0 \<or> c < length file_data * 2 ^ 1075" by linarith
  define t where "t = n_chunks_of (length file_data) c"
  have "int t \<le> 65535"
    using assms(5) c c0 ceil_div_nat[OF c0 nu] by (simp add: t_def n_chunks_of_def)
  then have tb: "t < 65536" by simp
  have t0: "0 < t" using assms(1) c0 by (simp add: t_def n_chunks_pos)
  let ?pkt = "packet fc t file_data c"
  have "datagrams (sent (send_file (Some file_data) frame_counter chunk_size fps))
        = map ?pkt [0..<t]"
    using send_file_ok[OF fcb c0 assms(8) _ assms(9) nu] tb
    by (simp add: fc c t_def datagrams_Sendto)
  with assms(10) have "mset ps = mset (map ?pkt [0..<t])" by simp
  then obtain "is" where "is": "ps = map ?pkt is" "mset is = mset [0..<t]"
    using perm_of_map by blast
  have d: "distinct is" using "is"(2) by (metis distinct_upt mset_eq_imp_distinct_iff)
  have s: "set is = {0..<t}" using "is"(2) by (metis mset_eq_setD set_upt)
  have ne: "is \<noteq> []" using s t0 by auto
  have l: "length ts = length is" using assms(11) "is"(1) by simp
  have "run float_sub frame_timeout d (map (\<lambda>(now, i). Datagram now (?pkt i)) (zip ts is))
        = (AList.delete fc d, [Save_frame fc (concat (map (chunk_of file_data c) [0..<t]))])"
  proof (rule run_datagrams[where S = "{}"])
    fix i assume "i < t"
    then show "valid_header (?pkt i) \<and> hdr_frame_counter (?pkt i) = fc \<and>
        hdr_total_chunks (?pkt i) = t \<and> hdr_chunk_idx (?pkt i) = i \<and>
        hdr_chunk_data (?pkt i) = chunk_of file_data c i"
      using packet_header[OF fcb tb, of i file_data c] by simp
  next
    show "{} = {} \<and> map_of d fc = None \<or>
          (\<exists>t0. map_of d fc = Some (partial_frame (chunk_of file_data c) {} t t0))"
      using assms(12) fc by simp
  qed (use d s ne l in simp_all)
  then show ?thesis
    using assms(12) c0
    by (simp add: "is"(1) deliveries_map fc map_of_None_delete t_def concat_all_chunks)
qed

text \<open>An instance: five bytes in chunks of two, delivered in the order 2, 0, 1.\<close>

theorem roundtrip_witness:
  "mset [[0,0,0,7,0,3,0,2,5], [0,0,0,7,0,3,0,0,1,2], [0,0,0,7,0,3,0,1,3,4]]
     = mset (datagrams (sent (send_file (Some [1,2,3,4,5]) 7 2 30))) \<and>
   run (-) 5 [] (deliver [0, 1, 2]
      [[0,0,0,7,0,3,0,2,5], [0,0,0,7,0,3,0,0,1,2], [0,0,0,7,0,3,0,1,3,4]])
   = ([], [Save_frame 7 [1,2,3,4,5]])"
proof -
  have s: "datagrams (sent (send_file (Some [1,2,3,4,5]) 7 2 30))
      = [[0,0,0,7,0,3,0,0,1,2], [0,0,0,7,0,3,0,1,3,4], [0,0,0,7,0,3,0,2,5]]"
    by code_simp
  have c: "ceil_div (int (length [1,2,3,4,5::byte])) 2 \<le> 65535"
    by code_simp
  have m: "mset [[0,0,0,7,0,3,0,2,5], [0,0,0,7,0,3,0,0,1,2], [0,0,0,7,0,3,0,1,3,4::byte]]
     = mset (datagrams (sent (send_file (Some [1,2,3,4,5]) 7 2 30)))"
    unfolding s by simp
  show ?thesis
    using m roundtrip[where file_data = "[1,2,3,4,5]" and chunk_size = 2 and frame_counter = 7
        and fps = 30 and ts = "[0, 1, 2]" and d = "[]" and float_sub = "(-)"
        and frame_timeout = 5, OF _ _ _ _ c _ _ _ _ m]
    by simp
qed

text \<open>The empty file: no datagram is sent, and delivering all of them emits nothing.\<close>

theorem roundtrip_empty_counterexample:
  "datagrams (sent (send_file (Some []) 0 8000 30)) = [] \<and>
   run (-) 5 [] (deliver [] (datagrams (sent (send_file (Some []) 0 8000 30)))) = ([], [])"
  by (simp add: send_file_def to_bytes_def ceil_div_def deliver_def)

subsection \<open>C2: a duplicate chunk\<close>

text \<open>
  C2 states that for every reassembler state and every chunk whose slot (same frame
  counter, same chunk index) is already filled, ingesting the chunk leaves
  \<^verbatim>\<open>received_count\<close> and \<^verbatim>\<open>last_update\<close> as they are and completes no frame.

  As stated the claim fails when the chunk's header carries another \<^verbatim>\<open>total_chunks\<close> than
  the entry: the mismatch branch runs before the slot is looked at, empties every slot,
  and the chunk is then stored as the first one (and completes the frame when the new
  \<^verbatim>\<open>total_chunks\<close> is 1).

  C2 amended: in every dictionary whose entries satisfy \<open>frame_ok\<close> (as all reachable ones
  do, see \<open>run_ok\<close>), a datagram of at least 8 bytes whose \<^verbatim>\<open>total_chunks\<close> equals that of
  the entry of its frame counter and whose slot in that entry is filled changes nothing:
  the dictionary is the same (so \<^verbatim>\<open>received_count\<close> and \<^verbatim>\<open>last_update\<close> are), no event
  is produced (so no frame is completed) and nothing is raised.
\<close>

theorem duplicate_chunk_ignored:
  assumes "table_ok d" and "8 \<le> length data"
    and "map_of d (hdr_frame_counter data) = Some fi"
    and "hdr_total_chunks data = total_chunks fi"
    and "hdr_chunk_idx data < length (chunks fi)"
    and "chunks fi ! hdr_chunk_idx data \<noteq> None"
  shows "datagram_received d now data = \<lparr>dict_after = d, events = [], raised = None\<rparr>"
proof -
  have ok: "frame_ok fi" using assms(1,3) by (rule table_ok_lookup)
  then have "hdr_chunk_idx data < hdr_total_chunks data"
    using assms(4,5) by (simp add: frame_ok_def)
  then have v: "valid_header data" using assms(2) by (simp add: valid_header_def)
  have "received_count fi \<noteq> total_chunks fi" using ok by (simp add: frame_ok_def)
  with v assms show ?thesis by (intro recv_dup) simp_all
qed

theorem duplicate_chunk_ignored_witness:
  "table_ok [(7, \<lparr>total_chunks = 3, chunks = [Some [1], Some [2], None], received_count = 2,
                last_update = 0\<rparr>)] \<and>
   datagram_received
     [(7, \<lparr>total_chunks = 3, chunks = [Some [1], Some [2], None], received_count = 2,
           last_update = 0\<rparr>)] 10 [0,0,0,7,0,3,0,1,9] =
   \<lparr>dict_after = [(7, \<lparr>total_chunks = 3, chunks = [Some [1], Some [2], None],
                        received_count = 2, last_update = 0\<rparr>)],
    events = [], raised = None\<rparr>"
proof -
  let ?fi = "\<lparr>total_chunks = 3, chunks = [Some [1], Some [2], None], received_count = 2,
             last_update = 0\<rparr>"
  let ?data = "[0,0,0,7,0,3,0,1,9] :: bytes"
  have h: "hdr_frame_counter ?data = 7" "hdr_total_chunks ?data = 3" "hdr_chunk_idx ?data = 1"
    by code_simp+
  have t: "table_ok [(7, ?fi)]" by code_simp
  show ?thesis
    using t duplicate_chunk_ignored[of "[(7, ?fi)]" ?data ?fi 10, OF t]
    by (simp add: h)
qed

text \<open>Chunks 0 and 1 of a three-chunk frame 7 have arrived. A datagram for slot 1 of frame 7
  that announces two chunks resets the entry, lowers \<^verbatim>\<open>received_count\<close> from 2 to 1 and
  refreshes \<^verbatim>\<open>last_update\<close>; one for slot 0 that announces a single chunk completes the
  frame.\<close>

theorem duplicate_chunk_counterexample:
  "fst (run (-) 5 [] [Datagram 0 [0,0,0,7,0,3,0,0,1], Datagram 0 [0,0,0,7,0,3,0,1,2]])
     = [(7, \<lparr>total_chunks = 3, chunks = [Some [1], Some [2], None], received_count = 2,
              last_update = 0\<rparr>)] \<and>
   datagram_received
     [(7, \<lparr>total_chunks = 3, chunks = [Some [1], Some [2], None], received_count = 2,
           last_update = 0\<rparr>)] 10 [0,0,0,7,0,2,0,1,9] =
   \<lparr>dict_after = [(7, \<lparr>total_chunks = 2, chunks = [None, Some [9]], received_count = 1,
                        last_update = 10\<rparr>)],
    events = [Warn_mismatch 7], raised = None\<rparr> \<and>
   datagram_received
     [(7, \<lparr>total_chunks = 3, chunks = [Some [1], Some [2], None], received_count = 2,
           last_update = 0\<rparr>)] 10 [0,0,0,7,0,1,0,0,9] =
   \<lparr>dict_after = [], events = [Warn_mismatch 7, Save_frame 7 [9]], raised = None\<rparr>"
  by code_simp

subsection \<open>C3: rejected datagrams\<close>

text \<open>
  C3: a datagram shorter than 8 bytes, or whose header has \<^verbatim>\<open>total_chunks\<close> zero, or whose
  \<^verbatim>\<open>chunk_idx\<close> is not below \<^verbatim>\<open>total_chunks\<close>, is rejected: the dictionary is exactly the
  one before, nothing is raised, and the only event is the warning (no frame is emitted).
\<close>

theorem rejected_datagram_no_change:
  assumes "length data < 8 \<or> hdr_total_chunks data = 0 \<or>
           hdr_chunk_idx data \<ge> hdr_total_chunks data"
  shows "dict_after (datagram_received d now data) = d \<and>
         raised (datagram_received d now data) = None \<and>
         events (datagram_received d now data) =
           (if length data < 8 then [Warn_too_small (length data)]
            else [Warn_invalid_header (hdr_chunk_idx data) (hdr_total_chunks data)])"
proof -
  have "\<not> valid_header data" using assms by (auto simp: valid_header_def)
  then show ?thesis by (simp add: recv_reject)
qed


theorem rejected_datagram_no_change_witness:
  "length [0,0,7::byte] < 8 \<and> hdr_total_chunks [0,0,0,7,0,0,0,0,9] = 0 \<and>
   hdr_chunk_idx [0,0,0,7,0,2,0,2,9] \<ge> hdr_total_chunks [0,0,0,7,0,2,0,2,9] \<and>
   dict_after (datagram_received
     [(7, \<lparr>total_chunks = 2, chunks = [Some [1], None], received_count = 1, last_update = 0\<rparr>)]
     10 [0,0,7]) =
     [(7, \<lparr>total_chunks = 2, chunks = [Some [1], None], received_count = 1, last_update = 0\<rparr>)] \<and>
   dict_after (datagram_received
     [(7, \<lparr>total_chunks = 2, chunks = [Some [1], None], received_count = 1, last_update = 0\<rparr>)]
     10 [0,0,0,7,0,0,0,0,9]) =
     [(7, \<lparr>total_chunks = 2, chunks = [Some [1], None], received_count = 1, last_update = 0\<rparr>)] \<and>
   dict_after (datagram_received
     [(7, \<lparr>total_chunks = 2, chunks = [Some [1], None], received_count = 1, last_update = 0\<rparr>)]
     10 [0,0,0,7,0,2,0,2,9]) =
     [(7, \<lparr>total_chunks = 2, chunks = [Some [1], None], received_count = 1, last_update = 0\<rparr>)]"
proof -
  let ?d = "[(7, \<lparr>total_chunks = 2, chunks = [Some [1], None], received_count = 1,
                  last_update = 0\<rparr>)]"
  have a: "length [0,0,7::byte] < 8" by simp
  have b: "hdr_total_chunks [0,0,0,7,0,0,0,0,9] = 0" by code_simp
  have c: "hdr_chunk_idx [0,0,0,7,0,2,0,2,9] \<ge> hdr_total_chunks [0,0,0,7,0,2,0,2,9]"
    by code_simp
  show ?thesis
    using a b c
      rejected_datagram_no_change[of "[0,0,7]" ?d 10]
      rejected_datagram_no_change[of "[0,0,0,7,0,0,0,0,9]" ?d 10]
      rejected_datagram_no_change[of "[0,0,0,7,0,2,0,2,9]" ?d 10]
    by simp
qed

subsection \<open>C4: header conflict\<close>

text \<open>
  C4: when a valid datagram arrives for a frame counter whose entry has another
  \<^verbatim>\<open>total_chunks\<close>, the entry is rebuilt from the incoming header before the payload is
  stored: afterwards it has the incoming \<^verbatim>\<open>total_chunks\<close>, that many slots, all empty but
  the one of the incoming chunk, and \<^verbatim>\<open>received_count\<close> 1 (0 after the reset, plus the
  stored chunk). When the incoming \<^verbatim>\<open>total_chunks\<close> is 1 the stored chunk completes the
  frame at once, so the frame saved is the incoming payload alone and the entry is
  deleted.
\<close>

theorem header_conflict_resets:
  assumes "valid_header data" and "map_of d (hdr_frame_counter data) = Some fi"
    and "total_chunks fi \<noteq> hdr_total_chunks data"
  shows "datagram_received d now data =
     (if hdr_total_chunks data = 1
      then \<lparr>dict_after = AList.delete (hdr_frame_counter data) d,
            events = [Warn_mismatch (hdr_frame_counter data),
                      Save_frame (hdr_frame_counter data) (hdr_chunk_data data)],
            raised = None\<rparr>
      else \<lparr>dict_after = AList.update (hdr_frame_counter data)
               \<lparr>total_chunks = hdr_total_chunks data,
                chunks = (replicate (hdr_total_chunks data) None)
                           [hdr_chunk_idx data := Some (hdr_chunk_data data)],
                received_count = 1, last_update = now\<rparr> d,
            events = [Warn_mismatch (hdr_frame_counter data)], raised = None\<rparr>)"
  using recv_mismatch[OF assms, of now] by (simp add: fresh_with_def)

theorem header_conflict_resets_witness:
  "valid_header [0,0,0,7,0,2,0,1,9] \<and>
   datagram_received
     [(7, \<lparr>total_chunks = 3, chunks = [Some [1], Some [2], None], received_count = 2,
           last_update = 0\<rparr>)] 10 [0,0,0,7,0,2,0,1,9] =
   \<lparr>dict_after = [(7, \<lparr>total_chunks = 2, chunks = [None, Some [9]], received_count = 1,
                        last_update = 10\<rparr>)],
    events = [Warn_mismatch 7], raised = None\<rparr>"
proof -
  let ?fi = "\<lparr>total_chunks = 3, chunks = [Some [1], Some [2], None], received_count = 2,
             last_update = 0\<rparr>"
  let ?data = "[0,0,0,7,0,2,0,1,9] :: bytes"
  have h: "hdr_frame_counter ?data = 7" "hdr_total_chunks ?data = 2" "hdr_chunk_idx ?data = 1"
    "hdr_chunk_data ?data = [9]"
    by code_simp+
  have v: "valid_header ?data" by (simp add: valid_header_def h)
  have r: "(replicate 2 None)[Suc 0 := Some [9::byte]] = [None, Some [9]]" by code_simp
  show ?thesis
    using v header_conflict_resets[of ?data "[(7, ?fi)]" ?fi 10, OF v]
    by (simp add: h r)
qed

subsection \<open>C5: eviction\<close>

text \<open>
  C5: for a dictionary (no key twice) and an entry for which the test of the source,
  \<^verbatim>\<open>now - info["last_update"] > self.frame_timeout\<close> with its subtraction of doubles
  \<open>float_sub\<close>, is true, one pass of \<open>cleanup_loop\<close> raises nothing and leaves exactly the
  entries for which the test is false, in their order, with one warning per discarded
  entry: the keys collected in the first pass over the unchanged dictionary are the ones
  deleted in the second. The stale entry's key is then absent, and a valid datagram for
  that key arriving afterwards meets no entry: it creates one with all slots empty and
  stores its payload there (or, announcing a single chunk, is saved at once); nothing of
  the old entry is used.
\<close>

theorem stale_frame_evicted:
  assumes "distinct (map fst d)" and "(fc, fi) \<in> set d"
    and "float_sub now (last_update fi) > frame_timeout"
  shows "fst (collect_stale float_sub now frame_timeout d)
           = map fst (filter (\<lambda>(k, info). float_sub now (last_update info) > frame_timeout) d) \<and>
         remove_all d (fst (collect_stale float_sub now frame_timeout d))
           = (filter (\<lambda>(k, info). \<not> float_sub now (last_update info) > frame_timeout) d, None) \<and>
         cleanup_loop float_sub frame_timeout d now =
           \<lparr>dict_after = filter (\<lambda>(k, info). \<not> float_sub now (last_update info) > frame_timeout) d,
            events = map (\<lambda>(k, info). Warn_discard k (received_count info) (total_chunks info))
                       (filter (\<lambda>(k, info). float_sub now (last_update info) > frame_timeout) d),
            raised = None\<rparr> \<and>
         map_of (dict_after (cleanup_loop float_sub frame_timeout d now)) fc = None \<and>
         (\<forall>data now'. valid_header data \<and> hdr_frame_counter data = fc \<longrightarrow>
            datagram_received (dict_after (cleanup_loop float_sub frame_timeout d now)) now' data =
              (if hdr_total_chunks data = 1
               then \<lparr>dict_after = dict_after (cleanup_loop float_sub frame_timeout d now),
                     events = [Save_frame fc (hdr_chunk_data data)], raised = None\<rparr>
               else \<lparr>dict_after = AList.update fc
                        \<lparr>total_chunks = hdr_total_chunks data,
                         chunks = (replicate (hdr_total_chunks data) None)
                                    [hdr_chunk_idx data := Some (hdr_chunk_data data)],
                         received_count = 1, last_update = now'\<rparr>
                        (dict_after (cleanup_loop float_sub frame_timeout d now)),
                     events = [], raised = None\<rparr>))"
proof -
  let ?d' = "dict_after (cleanup_loop float_sub frame_timeout d now)"
  have 1: "cleanup_loop float_sub frame_timeout d now =
           \<lparr>dict_after = filter (\<lambda>(k, info). \<not> float_sub now (last_update info) > frame_timeout) d,
            events = map (\<lambda>(k, info). Warn_discard k (received_count info) (total_chunks info))
                       (filter (\<lambda>(k, info). float_sub now (last_update info) > frame_timeout) d),
            raised = None\<rparr>"
    using cleanup_loop_filter[OF assms(1), of float_sub frame_timeout now]
    by (simp add: is_stale_def)
  have "fc \<notin> fst ` set ?d'"
  proof
    assume "fc \<in> fst ` set ?d'"
    then obtain fi' where m: "(fc, fi') \<in> set d" and n: "\<not> float_sub now (last_update fi') > frame_timeout"
      unfolding 1 by auto
    from assms(1) m assms(2) have "fi' = fi" by (rule eq_key_imp_eq_value)
    with n assms(3) show False by simp
  qed
  then have 2: "map_of ?d' fc = None" by (simp add: map_of_eq_None_iff)
  have 3: "datagram_received ?d' now' data =
              (if hdr_total_chunks data = 1
               then \<lparr>dict_after = ?d',
                     events = [Save_frame fc (hdr_chunk_data data)], raised = None\<rparr>
               else \<lparr>dict_after = AList.update fc
                        \<lparr>total_chunks = hdr_total_chunks data,
                         chunks = (replicate (hdr_total_chunks data) None)
                                    [hdr_chunk_idx data := Some (hdr_chunk_data data)],
                         received_count = 1, last_update = now'\<rparr> ?d',
                     events = [], raised = None\<rparr>)"
    if "valid_header data" "hdr_frame_counter data = fc" for data now'
    using recv_fresh[OF that(1), of ?d' now'] 2 that(2) by (simp add: fresh_with_def)
  have 4: "fst (collect_stale float_sub now frame_timeout d)
           = map fst (filter (\<lambda>(k, info). float_sub now (last_update info) > frame_timeout) d)"
    by (simp add: collect_stale_eq is_stale_def)
  have 5: "remove_all d (fst (collect_stale float_sub now frame_timeout d))
           = (filter (\<lambda>(k, info). \<not> float_sub now (last_update info) > frame_timeout) d, None)"
    using 1 by (simp add: cleanup_loop_def split: prod.splits)
  from 1 2 3 4 5 show ?thesis by blast
qed

text \<open>An instance at times where the subtraction of doubles is exact: \<open>6 - 0\<close> and
  \<open>6 - 4\<close>.\<close>

theorem stale_frame_evicted_witness:
  "cleanup_loop (-) 5
     [(7, \<lparr>total_chunks = 2, chunks = [Some [1], None], received_count = 1, last_update = 0\<rparr>),
      (8, \<lparr>total_chunks = 2, chunks = [None, Some [2]], received_count = 1, last_update = 4\<rparr>)] 6
   = \<lparr>dict_after =
        [(8, \<lparr>total_chunks = 2, chunks = [None, Some [2]], received_count = 1, last_update = 4\<rparr>)],
      events = [Warn_discard 7 1 2], raised = None\<rparr> \<and>
   datagram_received
     (dict_after (cleanup_loop (-) 5
        [(7, \<lparr>total_chunks = 2, chunks = [Some [1], None], received_count = 1, last_update = 0\<rparr>),
         (8, \<lparr>total_chunks = 2, chunks = [None, Some [2]], received_count = 1, last_update = 4\<rparr>)]
        6)) 7 [0,0,0,7,0,2,0,1,9]
   = \<lparr>dict_after =
        [(8, \<lparr>total_chunks = 2, chunks = [None, Some [2]], received_count = 1, last_update = 4\<rparr>),
         (7, \<lparr>total_chunks = 2, chunks = [None, Some [9]], received_count = 1, last_update = 7\<rparr>)],
      events = [], raised = None\<rparr>"
proof -
  let ?f7 = "\<lparr>total_chunks = 2, chunks = [Some [1::byte], None], received_count = 1,
             last_update = 0::real\<rparr>"
  let ?f8 = "\<lparr>total_chunks = 2, chunks = [None, Some [2::byte]], received_count = 1,
             last_update = 4::real\<rparr>"
  let ?data = "[0,0,0,7,0,2,0,1,9] :: bytes"
  have h: "hdr_frame_counter ?data = 7" "hdr_total_chunks ?data = 2" "hdr_chunk_idx ?data = 1"
    "hdr_chunk_data ?data = [9]"
    by code_simp+
  have v: "valid_header ?data" by (simp add: valid_header_def h)
  have r: "(replicate 2 None)[Suc 0 := Some [9::byte]] = [None, Some [9]]" by code_simp
  have a: "distinct (map fst [(7::nat, ?f7), (8, ?f8)])" by simp
  have b: "(7, ?f7) \<in> set [(7::nat, ?f7), (8, ?f8)]" by simp
  have c: "(-) 6 (last_update ?f7) > 5" by simp
  note t = stale_frame_evicted[where float_sub = "(-)" and now = 6 and frame_timeout = 5,
      OF a b c]
  have 1: "cleanup_loop (-) 5 [(7, ?f7), (8, ?f8)] 6
           = \<lparr>dict_after = [(8, ?f8)], events = [Warn_discard 7 1 2], raised = None\<rparr>"
    using t[THEN conjunct2, THEN conjunct2, THEN conjunct1] by simp
  have "datagram_received (dict_after (cleanup_loop (-) 5 [(7, ?f7), (8, ?f8)] 6)) 7 ?data =
        \<lparr>dict_after = AList.update 7
            \<lparr>total_chunks = 2, chunks = [None, Some [9]], received_count = 1, last_update = 7\<rparr>
            (dict_after (cleanup_loop (-) 5 [(7, ?f7), (8, ?f8)] 6)),
         events = [], raised = None\<rparr>"
    using t[THEN conjunct2, THEN conjunct2, THEN conjunct2, THEN conjunct2, rule_format,
        of ?data 7, OF conjI[OF v h(1)]]
    by (simp add: h r)
  then show ?thesis unfolding 1 by simp
qed

subsection \<open>C6: the worked example\<close>

text \<open>
  C6: a file of exactly 20000 bytes sent with \<^verbatim>\<open>chunk_size\<close> 8000 as frame 7 (with an
  \<^verbatim>\<open>fps\<close> for which \<^verbatim>\<open>1.0 / fps\<close> does not raise: not zero and below \<open>2 ^ 1024 - 2 ^ 970\<close> in
  absolute value) has \<^verbatim>\<open>total_chunks\<close> 3: three datagrams are sent, each announcing 3
  chunks, with payloads of 8000, 8000 and 4000 bytes after the 8-byte header, and the
  header of the datagram with index 1 is the byte sequence 00 00 00 07 00 03 00 01.
\<close>

theorem worked_example:
  assumes "length file_data = 20000" and "fps \<noteq> 0" and "\<bar>fps\<bar> < 2 ^ 1024 - 2 ^ 970"
  shows "ceil_div (int (length file_data)) 8000 = 3 \<and>
         map (\<lambda>p. length (drop 8 p)) (datagrams (sent (send_file (Some file_data) 7 8000 fps)))
           = [8000, 8000, 4000] \<and>
         map hdr_total_chunks (datagrams (sent (send_file (Some file_data) 7 8000 fps)))
           = [3, 3, 3] \<and>
         take 8 (datagrams (sent (send_file (Some file_data) 7 8000 fps)) ! 1)
           = [0, 0, 0, 7, 0, 3, 0, 1]"
proof -
  have n: "n_chunks_of 20000 8000 = 3" by (simp add: n_chunks_of_def)
  have u: "[0..<3] = [0, 1, 2]" by (simp add: upt_rec)
  have s: "datagrams (sent (send_file (Some file_data) 7 8000 fps))
           = [packet 7 3 file_data 8000 0, packet 7 3 file_data 8000 1, packet 7 3 file_data 8000 2]"
    using send_file_ok[of 7 8000 fps file_data] assms
    by (simp add: n u datagrams_Sendto)
  have c: "ceil_div (int (length file_data)) 8000 = 3"
    using ceil_div_nat[of 8000 20000] assms(1) by simp
  have l: "length (drop 8 (packet 7 3 file_data 8000 0)) = 8000"
    "length (drop 8 (packet 7 3 file_data 8000 1)) = 8000"
    "length (drop 8 (packet 7 3 file_data 8000 2)) = 4000"
    using assms(1) by (simp_all add: packet_def chunk_of_def length_be_bytes)
  have h: "hdr_total_chunks (packet 7 3 file_data 8000 i) = 3" if "i < 3" for i
    using packet_header(3)[of 7 3 i file_data 8000] that by simp
  have t: "take 8 (packet 7 3 file_data 8000 1) = [0, 0, 0, 7, 0, 3, 0, 1]"
    by (simp add: packet_def be_bytes_4 be_bytes_2)
  show ?thesis unfolding s using c l h[of 0] h[of 1] h[of 2] t by simp
qed

theorem worked_example_witness:
  "length (replicate 20000 (0::byte)) = 20000 \<and> (30::int) \<noteq> 0 \<and>
   \<bar>30::int\<bar> < 2 ^ 1024 - 2 ^ 970 \<and>
   map (\<lambda>p. length (drop 8 p))
     (datagrams (sent (send_file (Some (replicate 20000 0)) 7 8000 30))) = [8000, 8000, 4000] \<and>
   take 8 (datagrams (sent (send_file (Some (replicate 20000 0)) 7 8000 30)) ! 1)
     = [0, 0, 0, 7, 0, 3, 0, 1]"
  using worked_example[of "replicate 20000 0" 30] by simp

subsection \<open>C7: more than 65535 chunks\<close>

text \<open>
  C7 states that an input that needs more than 65535 chunks is rejected as a
  configuration error before any chunk is transmitted, and that this is handled locally
  without terminating the process.

  The first half holds: \<^verbatim>\<open>total_chunks.to_bytes(2, ...)\<close> raises \<^verbatim>\<open>OverflowError\<close> before the
  sending loop starts. The second half fails: nothing catches that exception, neither in
  \<^verbatim>\<open>send_file\<close> nor in the loop of \<^verbatim>\<open>monitor_folder_and_send\<close> that calls it, so it ends
  the monitoring coroutine and the files after the oversized one are not sent.

  C7 amended: for every input (shorter than \<open>2 ^ 53\<close> bytes) whose length needs more than
  65535 chunks at the given chunk size, \<open>send_file\<close> sends no datagram and raises
  \<^verbatim>\<open>OverflowError\<close>, whatever the frame counter and \<^verbatim>\<open>fps\<close>; the exception leaves
  \<open>send_file\<close> and the file loop of \<^verbatim>\<open>monitor_folder_and_send\<close> uncaught.
\<close>

theorem too_many_chunks_raises:
  assumes "65535 < ceil_div (int (length file_data)) chunk_size"
    and "length file_data < 2 ^ 53"
  shows "send_file (Some file_data) frame_counter chunk_size fps
           = \<lparr>sent = [], outcome = Inl OverflowError\<rparr> \<and>
         (filepath \<notin> sent_files \<longrightarrow>
            send_new_files ((filepath, Some file_data) # ply_files) sent_files frame_counter
              chunk_size fps = ([], Inl OverflowError))"
proof -
  have c: "chunk_size \<noteq> 0" using assms(1) by (auto simp: ceil_div_zero)
  have o: "to_bytes (ceil_div (int (length file_data)) chunk_size) 2 = Inl OverflowError"
    using assms(1) by (rule to_bytes_2_overflow)
  have 1: "send_file (Some file_data) frame_counter chunk_size fps
           = \<lparr>sent = [], outcome = Inl OverflowError\<rparr>"
  proof (cases "to_bytes frame_counter 4")
    case (Inl e)
    then have "e = OverflowError" by (simp add: to_bytes_def split: if_splits)
    with Inl show ?thesis by (simp add: send_file_def)
  next
    case (Inr b)
    with c o show ?thesis by (simp add: send_file_def)
  qed
  then show ?thesis by simp
qed

theorem too_many_chunks_raises_witness:
  "65535 < ceil_div (int (length (replicate 65536 (0::byte)))) 1 \<and>
   length (replicate 65536 (0::byte)) < 2 ^ 53 \<and> ''big.ply'' \<notin> {} \<and>
   send_file (Some (replicate 65536 0)) 0 1 30 = \<lparr>sent = [], outcome = Inl OverflowError\<rparr> \<and>
   send_new_files [(''big.ply'', Some (replicate 65536 0))] {} 0 1 30
     = ([], Inl OverflowError)"
proof -
  have a: "65535 < ceil_div (int (length (replicate 65536 (0::byte)))) 1"
    by (simp add: ceil_div_def)
  have b: "length (replicate 65536 (0::byte)) < 2 ^ 53" by simp
  from too_many_chunks_raises[OF a b, of 0 30 "''big.ply''" "{}" "[]"] a b
  show ?thesis by blast
qed

text \<open>A file of 65536 bytes with \<^verbatim>\<open>chunk_size\<close> 1: the exception leaves \<open>send_file\<close>, and
  in the monitoring loop the file after it is never sent.\<close>

theorem too_many_chunks_counterexample:
  "send_file (Some (replicate 65536 0)) 0 1 30 = \<lparr>sent = [], outcome = Inl OverflowError\<rparr> \<and>
   send_new_files [(''a.ply'', Some (replicate 65536 0)), (''b.ply'', Some [1])] {} 0 1 30
     = ([], Inl OverflowError)"
proof -
  have "send_file (Some (replicate 65536 0)) 0 1 30 = \<lparr>sent = [], outcome = Inl OverflowError\<rparr>"
    by (simp add: send_file_def to_bytes_def ceil_div_def)
  then show ?thesis by simp
qed

subsection \<open>C8: read failure\<close>

text \<open>
  C8: when the file cannot be read, \<open>send_file\<close> logs the error, sends no datagram and
  returns the frame counter it was given, which is never the wrapped increment. When the
  file can be read and \<open>send_file\<close> returns at all, it returns the wrapped increment and
  has sent one datagram for each of the \<^verbatim>\<open>total_chunks\<close> indices.
\<close>

theorem read_failure_keeps_frame_counter:
  "send_file None frame_counter chunk_size fps
     = \<lparr>sent = [Log_error_reading], outcome = Inr frame_counter\<rparr> \<and>
   datagrams (sent (send_file None frame_counter chunk_size fps)) = [] \<and>
   frame_counter \<noteq> (frame_counter + 1) mod 2 ^ 32 \<and>
   (length file_data < 2 ^ 53 \<and>
    outcome (send_file (Some file_data) frame_counter chunk_size fps) = Inr v \<longrightarrow>
      v = (frame_counter + 1) mod 2 ^ 32 \<and>
      length (datagrams (sent (send_file (Some file_data) frame_counter chunk_size fps)))
        = nat (ceil_div (int (length file_data)) chunk_size))"
proof -
  have 1: "send_file None frame_counter chunk_size fps
     = \<lparr>sent = [Log_error_reading], outcome = Inr frame_counter\<rparr>"
    by (simp add: send_file_def)
  have 2: "v = (frame_counter + 1) mod 2 ^ 32 \<and>
      length (datagrams (sent (send_file (Some file_data) frame_counter chunk_size fps)))
        = nat (ceil_div (int (length file_data)) chunk_size)"
    if "outcome (send_file (Some file_data) frame_counter chunk_size fps) = Inr v"
    using that send_chunks_all
    by (auto simp: send_file_def Let_def split: sum.splits if_splits prod.splits option.splits)
  from 1 2 next_frame_counter_differs[of frame_counter] show ?thesis by simp
qed

theorem read_failure_keeps_frame_counter_witness:
  "length [1,2,3,4,5::byte] < 2 ^ 53 \<and>
   outcome (send_file (Some [1,2,3,4,5]) 7 2 30) = Inr 8 \<and>
   length (datagrams (sent (send_file (Some [1,2,3,4,5]) 7 2 30))) = 3 \<and>
   send_file None 7 2 30 = \<lparr>sent = [Log_error_reading], outcome = Inr 7\<rparr>"
proof -
  have a: "length [1,2,3,4,5::byte] < 2 ^ 53" by simp
  have b: "outcome (send_file (Some [1,2,3,4,5]) 7 2 30) = Inr 8" by code_simp
  have c: "nat (ceil_div (int (length [1,2,3,4,5::byte])) 2) = 3" by code_simp
  note t = read_failure_keeps_frame_counter[of 7 2 30 "[1,2,3,4,5]" 8]
  have "length (datagrams (sent (send_file (Some [1,2,3,4,5]) 7 2 30))) = 3"
    using t[THEN conjunct2, THEN conjunct2, THEN conjunct2, rule_format, OF conjI[OF a b]] c
    by simp
  with a b t[THEN conjunct1] show ?thesis by simp
qed

subsection \<open>C9: the invariant of the entries\<close>

text \<open>
  C9: starting from the empty dictionary, after any sequence of datagrams and cleanup
  passes (whichever entries the rounded staleness test selects), every entry has
  \<^verbatim>\<open>received_count\<close> equal to the number of its non-empty slots and at most
  \<^verbatim>\<open>total_chunks\<close>.
\<close>

theorem partial_frame_invariant:
  "list_all (\<lambda>(fc, fi). received_count fi = count_filled (chunks fi) \<and>
                        received_count fi \<le> total_chunks fi)
     (fst (run float_sub frame_timeout [] inputs))"
proof -
  have "table_ok (fst (run float_sub frame_timeout [] inputs))"
    using table_ok_Nil by (rule run_ok)
  then show ?thesis
    by (auto simp: table_ok_def frame_ok_def list_all_iff)
qed

theorem partial_frame_invariant_witness:
  "fst (run (-) 5 [] [Datagram 0 [0,0,0,7,0,3,0,1,9], Tick 1, Datagram 2 [0,0,0,8,0,2,0,0,5],
                  Datagram 3 [0,0,0,7,0,3,0,1,6]])
     = [(7, \<lparr>total_chunks = 3, chunks = [None, Some [9], None], received_count = 1,
              last_update = 0\<rparr>),
        (8, \<lparr>total_chunks = 2, chunks = [Some [5], None], received_count = 1,
              last_update = 2\<rparr>)] \<and>
   list_all (\<lambda>(fc, fi). received_count fi = count_filled (chunks fi) \<and>
                        received_count fi \<le> total_chunks fi)
     [(7, \<lparr>total_chunks = 3, chunks = [None, Some [9], None], received_count = 1,
           last_update = 0\<rparr>),
      (8, \<lparr>total_chunks = 2, chunks = [Some [5], None], received_count = 1,
           last_update = 2\<rparr>)]"
proof -
  have r: "fst (run (-) 5 [] [Datagram 0 [0,0,0,7,0,3,0,1,9], Tick 1, Datagram 2 [0,0,0,8,0,2,0,0,5],
                  Datagram 3 [0,0,0,7,0,3,0,1,6]])
     = [(7, \<lparr>total_chunks = 3, chunks = [None, Some [9], None], received_count = 1,
              last_update = 0\<rparr>),
        (8, \<lparr>total_chunks = 2, chunks = [Some [5], None], received_count = 1,
              last_update = 2\<rparr>)]"
    by code_simp
  show ?thesis
    using partial_frame_invariant[of "(-)" 5 "[Datagram 0 [0,0,0,7,0,3,0,1,9], Tick 1,
        Datagram 2 [0,0,0,8,0,2,0,0,5], Datagram 3 [0,0,0,7,0,3,0,1,6]]"]
    unfolding r by simp
qed

subsection \<open>C10: the empty file\<close>

text \<open>
  C10: for a readable file of length 0 (with a frame counter in \<open>0 .. 2 ^ 32 - 1\<close>, a
  non-zero chunk size and an \<^verbatim>\<open>fps\<close> that is not zero and below \<open>2 ^ 1024 - 2 ^ 970\<close> in
  absolute value, so that nothing raises), \<^verbatim>\<open>total_chunks\<close> is 0, \<open>send_file\<close> sends no
  datagram and still returns the wrapped increment of the frame counter. The reassembler
  saves a frame only in the step that receives a valid datagram carrying that frame's
  counter: in any run, from any dictionary, whose inputs hold no valid datagram with this
  frame counter (and this call put none on the wire), no frame with this counter is
  saved.
\<close>

theorem empty_file_consumes_frame_counter:
  assumes "0 \<le> frame_counter" and "frame_counter < 2 ^ 32" and "chunk_size \<noteq> 0"
    and "fps \<noteq> 0" and "\<bar>fps\<bar> < 2 ^ 1024 - 2 ^ 970"
  shows "ceil_div (int (length ([] :: bytes))) chunk_size = 0 \<and>
         send_file (Some []) frame_counter chunk_size fps
           = \<lparr>sent = [], outcome = Inr ((frame_counter + 1) mod 2 ^ 32)\<rparr> \<and>
         datagrams (sent (send_file (Some []) frame_counter chunk_size fps)) = [] \<and>
         ((\<forall>now data. Datagram now data \<in> set inputs \<and> valid_header data \<longrightarrow>
              hdr_frame_counter data \<noteq> nat frame_counter) \<longrightarrow>
          (\<forall>complete_frame. Save_frame (nat frame_counter) complete_frame
              \<notin> set (snd (run float_sub frame_timeout d inputs))))"
proof -
  have 1: "ceil_div (int (length ([] :: bytes))) chunk_size = 0" by (simp add: ceil_div_def)
  have 2: "send_file (Some []) frame_counter chunk_size fps
           = \<lparr>sent = [], outcome = Inr ((frame_counter + 1) mod 2 ^ 32)\<rparr>"
    using assms by (simp add: send_file_def to_bytes_def ceil_div_def)
  have 3: "Save_frame (nat frame_counter) complete_frame
             \<notin> set (snd (run float_sub frame_timeout d inputs))"
    if "\<forall>now data. Datagram now data \<in> set inputs \<and> valid_header data \<longrightarrow>
              hdr_frame_counter data \<noteq> nat frame_counter" for complete_frame
    using that run_save_source[of "nat frame_counter" complete_frame float_sub frame_timeout d inputs]
    by blast
  show ?thesis unfolding 2 using 1 3 by simp
qed

theorem empty_file_consumes_frame_counter_witness:
  "(0::int) \<le> 7 \<and> (7::int) < 2 ^ 32 \<and> (8000::int) \<noteq> 0 \<and> (30::int) \<noteq> 0 \<and>
   \<bar>30::int\<bar> < 2 ^ 1024 - 2 ^ 970 \<and>
   send_file (Some []) 7 8000 30 = \<lparr>sent = [], outcome = Inr 8\<rparr> \<and>
   hdr_frame_counter [0,0,0,8,0,2,0,0,5] \<noteq> nat 7 \<and> \<not> valid_header [0,0,7] \<and>
   Save_frame (nat 7) []
     \<notin> set (snd (run (-) 5 [] [Datagram 0 [0,0,0,8,0,2,0,0,5], Datagram 1 [0,0,7]]))"
proof -
  have h: "hdr_frame_counter [0,0,0,8,0,2,0,0,5] = 8" by code_simp
  have v: "\<not> valid_header [0,0,7]" by (simp add: valid_header_def)
  have a: "\<forall>now data. Datagram now data
               \<in> set [Datagram 0 [0,0,0,8,0,2,0,0,5], Datagram 1 [0,0,7]] \<and>
             valid_header data \<longrightarrow> hdr_frame_counter data \<noteq> nat 7"
    using h v by auto
  have p: "(0::int) \<le> 7" "(7::int) < 2 ^ 32" "(8000::int) \<noteq> 0" "(30::int) \<noteq> 0"
    "\<bar>30::int\<bar> < 2 ^ 1024 - 2 ^ 970"
    by simp_all
  note t = empty_file_consumes_frame_counter[where frame_counter = 7 and chunk_size = 8000
      and fps = 30 and float_sub = "(-)" and frame_timeout = 5 and d = "[]"
      and inputs = "[Datagram 0 [0,0,0,8,0,2,0,0,5], Datagram 1 [0,0,7]]", OF p]
  have b: "send_file (Some []) 7 8000 30 = \<lparr>sent = [], outcome = Inr 8\<rparr>"
    using t[THEN conjunct2, THEN conjunct1] by simp
  have c: "Save_frame (nat 7) []
     \<notin> set (snd (run (-) 5 [] [Datagram 0 [0,0,0,8,0,2,0,0,5], Datagram 1 [0,0,7]]))"
    using t[THEN conjunct2, THEN conjunct2, THEN conjunct2] a by blast
  from b c p h v show ?thesis by simp
qed

end
